theory Spec2Isabelle
  imports Main
begin

section \<open>Go values and the \<open>Dict\<close> template helper\<close>

text \<open>
  \<open>Dict\<close> takes a variadic list of \<open>any\<close>. An \<open>any\<close> carries a dynamic type and a
  value; \<open>reflect.ValueOf(key).Kind()\<close> looks at the underlying kind, whereas the type
  assertion \<open>key.(string)\<close> looks at the dynamic type itself. The two differ on a defined
  type whose underlying type is string (such as \<open>template.HTML\<close>), so the model keeps
  them apart. The untyped \<open>nil\<close> has kind \<open>Invalid\<close>. Values of the kinds not listed
  here (floats, slices, structs, ...) take the same branches as \<open>bool\<close> and \<open>int\<close>.
\<close>

datatype any =
    nil_value
  | bool_value bool
  | int_value int
  | string_value string
  | named_string_value string string
  | map_value "(string \<times> any) list"

datatype Kind = reflect_Invalid | reflect_Bool | reflect_Int | reflect_String | reflect_Map

fun Kind_of :: "any \<Rightarrow> Kind" where
  "Kind_of nil_value = reflect_Invalid"
| "Kind_of (bool_value b) = reflect_Bool"
| "Kind_of (int_value i) = reflect_Int"
| "Kind_of (string_value s) = reflect_String"
| "Kind_of (named_string_value tname s) = reflect_String"
| "Kind_of (map_value kvs) = reflect_Map"

text \<open>The type assertion \<open>key.(string)\<close>: \<open>None\<close> stands for its run-time panic.\<close>

fun assert_string :: "any \<Rightarrow> string option" where
  "assert_string (string_value s) = Some s"
| "assert_string v = None"

text \<open>
  Go \<open>error\<close> values: the two messages of \<open>Dict\<close>, the error of a failed
  \<open>ReadFile\<close> (with the path), and the errors of the template engine.
\<close>

datatype go_error =
    parameters_must_be_even
  | type_must_equal_to_string
  | read_failed string
  | no_files_named
  | template_error string

datatype runtime_panic = index_out_of_range | interface_conversion

datatype 'a outcome = Panics runtime_panic | Returns 'a

text \<open>
  The \<open>for\<close> loop of \<open>Dict\<close>. Its first statement reads \<open>values[0]\<close> and \<open>values[1]\<close>
  and only the end of the body tests \<open>len(values) == 0\<close>.
\<close>

fun Dict_loop :: "(string \<rightharpoonup> any) \<Rightarrow> any list \<Rightarrow> (go_error + (string \<rightharpoonup> any)) outcome" where
  "Dict_loop dict [] = Panics index_out_of_range"
| "Dict_loop dict [key] = Panics index_out_of_range"
| "Dict_loop dict (key # val # values) =
     (if Kind_of key = reflect_String then
        (case assert_string key of
           None \<Rightarrow> Panics interface_conversion
         | Some k \<Rightarrow>
             (if values = [] then Returns (Inr (dict(k \<mapsto> val)))
              else Dict_loop (dict(k \<mapsto> val)) values))
      else Returns (Inl type_must_equal_to_string))"

definition Dict :: "any list \<Rightarrow> (go_error + (string \<rightharpoonup> any)) outcome" where
  "Dict values =
     (if length values mod 2 \<noteq> 0 then Returns (Inl parameters_must_be_even)
      else Dict_loop Map.empty values)"

section \<open>Path helpers of the Go library (Unix separator)\<close>

text \<open>
  \<open>filepath.Base\<close>: the empty path gives \<open>.\<close>; trailing slashes are stripped; the
  result is what follows the last slash; a path of slashes only gives \<open>/\<close>.
\<close>

definition strip_trailing_slashes :: "string \<Rightarrow> string" where
  "strip_trailing_slashes path = rev (dropWhile (\<lambda>c. c = CHR ''/'') (rev path))"

definition last_element :: "string \<Rightarrow> string" where
  "last_element path = rev (takeWhile (\<lambda>c. c \<noteq> CHR ''/'') (rev path))"

definition Base :: "string \<Rightarrow> string" where
  "Base path =
     (if path = [] then ''.''
      else (let e = last_element (strip_trailing_slashes path)
            in if e = [] then ''/'' else e))"

text \<open>
  \<open>filepath.Ext\<close> scans from the end of the path: it stops with the empty extension
  at a slash and returns the suffix from the first dot it meets.
\<close>

fun Ext_scan :: "string \<Rightarrow> string \<Rightarrow> string" where
  "Ext_scan [] suffix = []"
| "Ext_scan (c # front) suffix =
     (if c = CHR ''/'' then []
      else if c = CHR ''.'' then c # suffix
      else Ext_scan front (c # suffix))"

definition Ext :: "string \<Rightarrow> string" where
  "Ext path = Ext_scan (rev path) []"

text \<open>
  \<open>path.Clean\<close>, by path elements: empty and \<open>.\<close> elements are dropped; a \<open>..\<close>
  removes the element before it when that is a real one, is dropped at the root of a
  rooted path and is kept otherwise; the empty result is \<open>.\<close>. The stack holds the
  kept elements, the last one first.
\<close>

fun split_slash :: "string \<Rightarrow> string list" where
  "split_slash [] = [[]]"
| "split_slash (c # s) =
     (if c = CHR ''/'' then [] # split_slash s
      else (case split_slash s of [] \<Rightarrow> [[c]] | e # es \<Rightarrow> (c # e) # es))"

fun join_slash :: "string list \<Rightarrow> string" where
  "join_slash [] = []"
| "join_slash [e] = e"
| "join_slash (e # es) = e @ CHR ''/'' # join_slash es"

fun Clean_elems :: "bool \<Rightarrow> string list \<Rightarrow> string list \<Rightarrow> string list" where
  "Clean_elems rooted stack [] = rev stack"
| "Clean_elems rooted stack (e # es) =
     (if e = [] \<or> e = ''.'' then Clean_elems rooted stack es
      else if e = ''..'' then
        (if stack \<noteq> [] \<and> hd stack \<noteq> ''..'' then Clean_elems rooted (tl stack) es
         else if rooted then Clean_elems rooted stack es
         else Clean_elems rooted (e # stack) es)
      else Clean_elems rooted (e # stack) es)"

definition Clean :: "string \<Rightarrow> string" where
  "Clean path =
     (if path = [] then ''.''
      else (let rooted = (hd path = CHR ''/'');
                out = join_slash (Clean_elems rooted [] (split_slash path))
            in if rooted then CHR ''/'' # out
               else if out = [] then ''.'' else out))"

text \<open>
  \<open>path.Join\<close>: nothing for elements that are all empty; otherwise the elements from
  the first non-empty one on, separated by slashes, cleaned.
\<close>

fun Join_buf :: "string \<Rightarrow> string list \<Rightarrow> string" where
  "Join_buf buf [] = buf"
| "Join_buf buf (e # elem) =
     (if buf \<noteq> [] \<or> e \<noteq> [] then
        Join_buf ((if buf \<noteq> [] then buf @ ''/'' else buf) @ e) elem
      else Join_buf buf elem)"

definition Join :: "string list \<Rightarrow> string" where
  "Join elem = (if concat elem = [] then [] else Clean (Join_buf [] elem))"

section \<open>The inclusion-directive pattern \<open>reTmpl\<close>\<close>

text \<open>
  The pattern of \<open>reTmpl\<close> is a sequence of single-character matchers, each taken
  once, optionally (\<open>?\<close>) or any number of times (\<open>*\<close>), with one capture group.
  Go's \<open>regexp\<close> returns the leftmost match, and among the matches at that position
  the one a backtracking search finds first, the quantifiers being greedy.
\<close>

datatype atom = Ch char | NotOf string | Dot

fun atom_ok :: "atom \<Rightarrow> char \<Rightarrow> bool" where
  "atom_ok (Ch c) x = (x = c)"
| "atom_ok (NotOf cs) x = (x \<notin> set cs)"
| "atom_ok Dot x = (x \<noteq> CHR 0x0A)"

datatype item = One atom | Opt atom | Star atom | Open_group | Close_group

text \<open>
  \<open>backtrack items g cap s\<close> matches \<open>items\<close> at the start of \<open>s\<close>; \<open>g\<close> says
  whether the capture group is open and \<open>cap\<close> is the text captured so far. The result
  is the captured text and the unmatched rest of \<open>s\<close>.
\<close>

fun backtrack :: "item list \<Rightarrow> bool \<Rightarrow> string \<Rightarrow> string \<Rightarrow> (string \<times> string) option" where
  "backtrack [] g cap s = Some (cap, s)"
| "backtrack (Open_group # r) g cap s = backtrack r True [] s"
| "backtrack (Close_group # r) g cap s = backtrack r False cap s"
| "backtrack (One a # r) g cap [] = None"
| "backtrack (One a # r) g cap (x # s) =
     (if atom_ok a x then backtrack r g (if g then cap @ [x] else cap) s else None)"
| "backtrack (Opt a # r) g cap [] = backtrack r g cap []"
| "backtrack (Opt a # r) g cap (x # s) =
     (if atom_ok a x then
        (case backtrack r g (if g then cap @ [x] else cap) s of
           Some m \<Rightarrow> Some m
         | None \<Rightarrow> backtrack r g cap (x # s))
      else backtrack r g cap (x # s))"
| "backtrack (Star a # r) g cap [] = backtrack r g cap []"
| "backtrack (Star a # r) g cap (x # s) =
     (if atom_ok a x then
        (case backtrack (Star a # r) g (if g then cap @ [x] else cap) s of
           Some m \<Rightarrow> Some m
         | None \<Rightarrow> backtrack r g cap (x # s))
      else backtrack r g cap (x # s))"

definition lits :: "string \<Rightarrow> item list" where
  "lits s = map (\<lambda>c. One (Ch c)) s"

text \<open>
  The pattern \<^verbatim>\<open>{{-? ?template \"(?P<Name>[^() ]*)\" ?.* ?-?}}\<close>; the double quote is
  the character \<open>0x22\<close>.
\<close>

definition reTmpl :: "item list" where
  "reTmpl =
     lits ''{{'' @ [Opt (Ch CHR ''-''), Opt (Ch CHR '' '')] @ lits ''template '' @
     [One (Ch (CHR 0x22)), Open_group, Star (NotOf ''() ''), Close_group, One (Ch (CHR 0x22)),
      Opt (Ch CHR '' ''), Star Dot, Opt (Ch CHR '' ''), Opt (Ch CHR ''-'')] @ lits ''}}''"

text \<open>
  \<open>reTmpl.FindAllStringSubmatch(content, -1)\<close>: the successive non-overlapping
  matches, each as the list of the whole match and the captured name. The search for
  the next match starts where the previous one ended.
\<close>

function FindAllStringSubmatch :: "string \<Rightarrow> string list list" where
  "FindAllStringSubmatch [] = []"
| "FindAllStringSubmatch (c # s) =
     (case backtrack reTmpl False [] (c # s) of
        None \<Rightarrow> FindAllStringSubmatch s
      | Some (name, rest) \<Rightarrow>
          [take (length (c # s) - length rest) (c # s), name] # FindAllStringSubmatch rest)"
  by pat_completeness auto
termination
proof (relation "measure length")
  show "wf (measure length)" by simp
next
  fix c :: char and s :: string
  show "(s, c # s) \<in> measure length" by simp
next
  fix c :: char and s :: string and m :: "string \<times> string" and name rest :: string
  assume m: "backtrack reTmpl False [] (c # s) = Some m" and nr: "(name, rest) = m"
  have le: "length r \<le> length t" if "backtrack items g cap t = Some (n, r)"
    for items g cap t n r
    using that
    by (induction items g cap t rule: backtrack.induct)
       (auto split: if_splits option.splits simp: le_Suc_eq)
  from m nr have "backtrack (tl reTmpl) False [] s = Some (name, rest)"
    by (simp add: reTmpl_def lits_def split: if_splits)
  from le [OF this] show "(rest, c # s) \<in> measure length" by simp
qed

section \<open>The dependency resolver \<open>getAllTmplName\<close>\<close>

text \<open>
  The two storage backends: the embedded archive \<open>UrlFS\<close> and the live directory tree
  read by \<open>os.ReadFile\<close>. A path that cannot be read maps to \<open>None\<close>. The contents do
  not change while one request is handled.
\<close>

record filesystem =
  UrlFS :: "string \<rightharpoonup> string"
  os_files :: "string \<rightharpoonup> string"

definition ReadFile :: "filesystem \<Rightarrow> bool \<Rightarrow> string \<Rightarrow> string option" where
  "ReadFile fs isEmbed filePath = (if isEmbed then UrlFS fs filePath else os_files fs filePath)"

text \<open>
  The first loop of \<open>getAllTmplName\<close>: \<open>curTmplSet\<close> receives \<open>match[1]\<close> of every match,
  a name that is already a key being skipped.
\<close>

fun collect_names :: "(string \<rightharpoonup> string) \<Rightarrow> string list list \<Rightarrow> (string \<rightharpoonup> string)" where
  "collect_names curTmplSet [] = curTmplSet"
| "collect_names curTmplSet (match # matchList) =
     (let tmplName = match ! 1
      in if curTmplSet tmplName \<noteq> None then collect_names curTmplSet matchList
         else collect_names (curTmplSet(tmplName \<mapsto> tmplName)) matchList)"

text \<open>
  The second loop, over \<open>allTmpl\<close>. \<open>recurse\<close> is the recursive call of
  \<open>getAllTmplName\<close> on a candidate; \<open>None\<close> means that it does not return. Its error is
  discarded (\<open>fList, _ := ...\<close>), and so \<open>fList\<close> is empty when it fails.
\<close>

fun select_used :: "(string \<Rightarrow> (go_error + string list) option) \<Rightarrow> (string \<rightharpoonup> string) \<Rightarrow>
    string list \<Rightarrow> string list \<Rightarrow> string list option" where
  "select_used recurse curTmplSet filterTmpl [] = Some filterTmpl"
| "select_used recurse curTmplSet filterTmpl (tmplFilepath # allTmpl) =
     (if curTmplSet (Base tmplFilepath) \<noteq> None then
        (case recurse tmplFilepath of
           None \<Rightarrow> None
         | Some r \<Rightarrow>
             (let fList = (case r of Inl err \<Rightarrow> [] | Inr l \<Rightarrow> l)
              in select_used recurse curTmplSet (filterTmpl @ [tmplFilepath] @ fList) allTmpl))
      else select_used recurse curTmplSet filterTmpl allTmpl)"

text \<open>
  \<open>getAllTmplName\<close> recurses without a bound of its own, so the model takes the depth
  of recursion it may use as its first argument: \<open>None\<close> says that this depth was not
  enough. A call that returns \<open>None\<close> at every depth is a call that never returns.
  \<open>Inl\<close> is the error of the failed read of \<open>filePath\<close>, \<open>Inr\<close> the list \<open>filterTmpl\<close>.
\<close>

fun getAllTmplName :: "nat \<Rightarrow> filesystem \<Rightarrow> string \<Rightarrow> string list \<Rightarrow> bool \<Rightarrow>
    (go_error + string list) option" where
  "getAllTmplName 0 fs filePath allTmpl isEmbed = None"
| "getAllTmplName (Suc depth) fs filePath allTmpl isEmbed =
     (case ReadFile fs isEmbed filePath of
        None \<Rightarrow> Some (Inl (read_failed filePath))
      | Some content \<Rightarrow>
          (let matchList = FindAllStringSubmatch content
           in if matchList = [] then Some (Inr [])
              else (case select_used (\<lambda>p. getAllTmplName depth fs p allTmpl isEmbed)
                           (collect_names Map.empty matchList) [] allTmpl of
                      None \<Rightarrow> None
                    | Some filterTmpl \<Rightarrow> Some (Inr filterTmpl))))"

text \<open>The bundle of a page: the resolver's list with the page's own path appended.\<close>

definition bundle_of :: "string list \<Rightarrow> string \<Rightarrow> string list" where
  "bundle_of filterTmpl curSrc = filterTmpl @ [curSrc]"

section \<open>The request handler registered by \<open>initURL\<close>\<close>

text \<open>
  The \<open>switch\<close> on \<open>filepath.Ext(r.URL.Path)\<close> with its \<open>fallthrough\<close>s: each case is
  a function that ends by entering the next one. The slice \<open>curSrc[:len(curSrc)-4]\<close>
  panics on a string shorter than four bytes.
\<close>

datatype route = render string | static_file | slice_out_of_range

definition case_gohtml :: "string \<Rightarrow> route" where
  "case_gohtml curSrc = render curSrc"

definition case_html :: "string \<Rightarrow> route" where
  "case_html curSrc =
     (if length curSrc < 4 then slice_out_of_range
      else case_gohtml (take (length curSrc - 4) curSrc @ ''gohtml''))"

definition case_no_ext :: "string \<Rightarrow> route" where
  "case_no_ext curSrc = case_html (Join [curSrc, ''index.html''])"

definition map_path :: "string \<Rightarrow> route" where
  "map_path urlPath =
     (let curSrc = Join [''./src'', urlPath]; ext = Ext urlPath
      in if ext = [] then case_no_ext curSrc
         else if ext = ''.html'' then case_html curSrc
         else if ext = ''.gohtml'' then case_gohtml curSrc
         else static_file)"

text \<open>
  The template engine (\<open>html/template\<close>) is outside the repository. Its three
  operations are parameters: \<open>New\<close>, \<open>Parse\<close> of one file's text into the template set
  under the file's base name, and \<open>Execute\<close>, which yields the bytes written to the
  response. \<open>ParseFiles\<close> and \<open>ParseFS\<close> read the named files in order through the
  active backend and stop at the first file that cannot be read or parsed; with no
  file at all they fail. (\<open>ParseFS\<close> takes its arguments as patterns; a path without
  pattern characters stands for itself.)
\<close>

record 'tmpl engine =
  template_New :: "string \<Rightarrow> 'tmpl"
  template_Parse :: "'tmpl \<Rightarrow> string \<Rightarrow> string \<Rightarrow> go_error + 'tmpl"
  template_Execute :: "'tmpl \<Rightarrow> string"

fun parse_each :: "'tmpl engine \<Rightarrow> filesystem \<Rightarrow> bool \<Rightarrow> 'tmpl \<Rightarrow> string list \<Rightarrow> go_error + 'tmpl" where
  "parse_each E fs isEmbed t [] = Inr t"
| "parse_each E fs isEmbed t (filename # filenames) =
     (case ReadFile fs isEmbed filename of
        None \<Rightarrow> Inl (read_failed filename)
      | Some b \<Rightarrow>
          (case template_Parse E t (Base filename) b of
             Inl err \<Rightarrow> Inl err
           | Inr t' \<Rightarrow> parse_each E fs isEmbed t' filenames))"

definition ParseFiles :: "'tmpl engine \<Rightarrow> filesystem \<Rightarrow> bool \<Rightarrow> 'tmpl \<Rightarrow> string list \<Rightarrow> go_error + 'tmpl" where
  "ParseFiles E fs isEmbed t filenames =
     (if filenames = [] then Inl no_files_named else parse_each E fs isEmbed t filenames)"

text \<open>
  What the handler leaves in the response: the status, the \<open>Content-Type\<close> header it
  set, and the writes to the body, an error text or the output of \<open>Execute\<close>.
\<close>

datatype body_write = error_text go_error | rendered_output string

record response =
  status :: nat
  content_type :: "string option"
  body :: "body_write list"

datatype handled = responds response | handler_panics

definition render_page :: "'tmpl engine \<Rightarrow> filesystem \<Rightarrow> string list \<Rightarrow> bool \<Rightarrow> nat \<Rightarrow> string \<Rightarrow>
    handled option" where
  "render_page E fs tmplFileList isEmbed depth curSrc =
     (case getAllTmplName depth fs curSrc tmplFileList isEmbed of
        None \<Rightarrow> None
      | Some (Inl err) \<Rightarrow>
          Some (responds \<lparr>status = 400, content_type = Some ''text/html; charset=utf-8'', body = []\<rparr>)
      | Some (Inr filterTmpl) \<Rightarrow>
          (case ParseFiles E fs isEmbed (template_New E (Base curSrc)) (bundle_of filterTmpl curSrc) of
             Inl err \<Rightarrow>
               Some (responds \<lparr>status = 400, content_type = Some ''text/html; charset=utf-8'',
                                body = [error_text err]\<rparr>)
           | Inr t \<Rightarrow>
               Some (responds \<lparr>status = 200, content_type = Some ''text/html; charset=utf-8'',
                                body = [rendered_output (template_Execute E t)]\<rparr>)))"

text \<open>
  The handler of \<open>/\<close>. In the \<open>default\<close> case the file server is built and dropped,
  so nothing is written. \<open>None\<close> says that the resolver did not return within
  \<open>depth\<close>.
\<close>

definition handle_request :: "'tmpl engine \<Rightarrow> filesystem \<Rightarrow> string list \<Rightarrow> bool \<Rightarrow> nat \<Rightarrow> string \<Rightarrow>
    handled option" where
  "handle_request E fs tmplFileList isEmbed depth urlPath =
     (case map_path urlPath of
        render curSrc \<Rightarrow> render_page E fs tmplFileList isEmbed depth curSrc
      | static_file \<Rightarrow> Some (responds \<lparr>status = 200, content_type = None, body = []\<rparr>)
      | slice_out_of_range \<Rightarrow> Some handler_panics)"

section \<open>Notions used to state the properties\<close>

text \<open>
  An argument list of alternating string keys and values, from its pairs; and the key
  positions of an argument list.
\<close>

fun flatten_pairs :: "(string \<times> any) list \<Rightarrow> any list" where
  "flatten_pairs [] = []"
| "flatten_pairs ((k, v) # kvs) = string_value k # v # flatten_pairs kvs"

fun keys_of :: "any list \<Rightarrow> any list" where
  "keys_of (key # val # values) = key # keys_of values"
| "keys_of values = []"

text \<open>
  The list a recursive call contributes: \<open>fList\<close> is empty when the call failed.
\<close>

definition fList_of :: "(go_error + string list) option \<Rightarrow> string list" where
  "fList_of r = (case r of Some (Inr l) \<Rightarrow> l | _ \<Rightarrow> [])"

text \<open>
  The reference set of a file (\<open>curTmplSet\<close> after the first loop; empty for a file
  that cannot be read), the candidates it selects, and the relation ``the file \<open>p\<close>
  references the candidate \<open>q\<close> by base name''.
\<close>

definition references :: "filesystem \<Rightarrow> bool \<Rightarrow> string \<Rightarrow> (string \<rightharpoonup> string)" where
  "references fs isEmbed filePath =
     (case ReadFile fs isEmbed filePath of
        None \<Rightarrow> Map.empty
      | Some content \<Rightarrow> collect_names Map.empty (FindAllStringSubmatch content))"

definition direct :: "filesystem \<Rightarrow> bool \<Rightarrow> string list \<Rightarrow> string \<Rightarrow> string list" where
  "direct fs isEmbed allTmpl filePath =
     filter (\<lambda>q. references fs isEmbed filePath (Base q) \<noteq> None) allTmpl"

definition refers_to :: "filesystem \<Rightarrow> bool \<Rightarrow> string list \<Rightarrow> (string \<times> string) set" where
  "refers_to fs isEmbed allTmpl = {(p, q). q \<in> set (direct fs isEmbed allTmpl p)}"

text \<open>
  A page reaches a reference cycle when some file it transitively references (or the
  page itself) transitively references itself; its reference closure is acyclic when
  it reaches none.
\<close>

definition reaches_cycle :: "filesystem \<Rightarrow> bool \<Rightarrow> string list \<Rightarrow> string \<Rightarrow> bool" where
  "reaches_cycle fs isEmbed allTmpl p =
     (\<exists>q. (p, q) \<in> (refers_to fs isEmbed allTmpl)\<^sup>* \<and> (q, q) \<in> (refers_to fs isEmbed allTmpl)\<^sup>+)"

definition acyclic_from :: "filesystem \<Rightarrow> bool \<Rightarrow> string list \<Rightarrow> string \<Rightarrow> bool" where
  "acyclic_from fs isEmbed allTmpl p = (\<not> reaches_cycle fs isEmbed allTmpl p)"

text \<open>The candidates a page transitively references.\<close>

definition transitively_referenced :: "filesystem \<Rightarrow> bool \<Rightarrow> string list \<Rightarrow> string \<Rightarrow> string set" where
  "transitively_referenced fs isEmbed allTmpl p = {q. (p, q) \<in> (refers_to fs isEmbed allTmpl)\<^sup>+}"

text \<open>
  A chain of references from a file: a list of candidates, the first selected by the
  file and each next one by the one before it. \<open>chains p q\<close> are the chains from \<open>p\<close>
  that end in \<open>q\<close>.
\<close>

fun is_chain :: "filesystem \<Rightarrow> bool \<Rightarrow> string list \<Rightarrow> string \<Rightarrow> string list \<Rightarrow> bool" where
  "is_chain fs isEmbed allTmpl p [] = True"
| "is_chain fs isEmbed allTmpl p (c # cs) =
     (c \<in> set (direct fs isEmbed allTmpl p) \<and> is_chain fs isEmbed allTmpl c cs)"

definition chains :: "filesystem \<Rightarrow> bool \<Rightarrow> string list \<Rightarrow> string \<Rightarrow> string \<Rightarrow> string list set" where
  "chains fs isEmbed allTmpl p q = {cs. cs \<noteq> [] \<and> last cs = q \<and> is_chain fs isEmbed allTmpl p cs}"

text \<open>
  Sample sites. In \<open>cyclic_site\<close> the page includes \<open>b.gohtml\<close>, which includes
  \<open>a.gohtml\<close>, which includes \<open>b.gohtml\<close> again. In \<open>diamond_site\<close> the page includes
  \<open>a.gohtml\<close> and \<open>b.gohtml\<close> (on two lines) and both include \<open>c.gohtml\<close>. In
  \<open>shared_site\<close> the page includes \<open>header.gohtml\<close> and \<open>nav.gohtml\<close>, and the header
  includes the navigation too. In \<open>about_site\<close> the page \<open>about\<close> includes the header,
  as in the specification's second scenario.
\<close>

definition cyclic_site :: filesystem where
  "cyclic_site = \<lparr>UrlFS = Map.empty, os_files =
     [''src/a.gohtml'' \<mapsto> ''{{template \"b.gohtml\"}}'',
      ''tmpl/a.gohtml'' \<mapsto> ''{{template \"b.gohtml\"}}'',
      ''tmpl/b.gohtml'' \<mapsto> ''{{template \"a.gohtml\"}}'']\<rparr>"

definition cyclic_candidates :: "string list" where
  "cyclic_candidates = [''tmpl/a.gohtml'', ''tmpl/b.gohtml'']"

definition diamond_site :: filesystem where
  "diamond_site = \<lparr>UrlFS = Map.empty, os_files =
     [''src/index.gohtml'' \<mapsto> ''{{template \"a.gohtml\"}}'' @ [CHR 0x0A] @ ''{{template \"b.gohtml\"}}'',
      ''tmpl/a.gohtml'' \<mapsto> ''<a>{{template \"c.gohtml\" .}}</a>'',
      ''tmpl/b.gohtml'' \<mapsto> ''<b>{{template \"c.gohtml\" .}}</b>'',
      ''tmpl/c.gohtml'' \<mapsto> ''<c></c>'']\<rparr>"

definition diamond_candidates :: "string list" where
  "diamond_candidates = [''tmpl/a.gohtml'', ''tmpl/b.gohtml'', ''tmpl/c.gohtml'']"

definition shared_site :: filesystem where
  "shared_site = \<lparr>UrlFS = Map.empty, os_files =
     [''src/index.gohtml'' \<mapsto> ''{{template \"header.gohtml\" .}}'' @ [CHR 0x0A] @ ''{{template \"nav.gohtml\" .}}'',
      ''tmpl/header.gohtml'' \<mapsto> ''<header>{{- template \"nav.gohtml\" . -}}</header>'',
      ''tmpl/nav.gohtml'' \<mapsto> ''<nav></nav>'']\<rparr>"

definition shared_candidates :: "string list" where
  "shared_candidates = [''tmpl/header.gohtml'', ''tmpl/nav.gohtml'']"

definition about_site :: filesystem where
  "about_site = \<lparr>UrlFS = Map.empty, os_files =
     [''src/about.gohtml'' \<mapsto> ''{{template \"header.gohtml\" .}}'',
      ''tmpl/header.gohtml'' \<mapsto> ''<h1>{{.Site.Title}}</h1>'']\<rparr>"

text \<open>
  In \<open>basename_site\<close> two candidates in different directories share the base name
  \<open>h.gohtml\<close>; the page names \<open>h.gohtml\<close> and, by its full path, \<open>tmpl/z.gohtml\<close>.
\<close>

definition basename_site :: filesystem where
  "basename_site = \<lparr>UrlFS = Map.empty, os_files =
     [''src/index.gohtml'' \<mapsto> ''{{template \"h.gohtml\"}}'' @ [CHR 0x0A] @ ''{{template \"tmpl/z.gohtml\"}}'',
      ''tmpl/x/h.gohtml'' \<mapsto> ''<x></x>'',
      ''tmpl/y/h.gohtml'' \<mapsto> ''<y></y>'',
      ''tmpl/z.gohtml'' \<mapsto> ''<z></z>'']\<rparr>"

definition basename_candidates :: "string list" where
  "basename_candidates = [''tmpl/x/h.gohtml'', ''tmpl/y/h.gohtml'', ''tmpl/z.gohtml'']"

text \<open>
  The Reference Extractor: lines 116 to 129 of \<open>getAllTmplName\<close>, from the content of
  a file to \<open>curTmplSet\<close>; and the names of the matches, in the order of the matches.
\<close>

definition extract_names :: "string \<Rightarrow> (string \<rightharpoonup> string)" where
  "extract_names content = collect_names Map.empty (FindAllStringSubmatch content)"

definition matched_names :: "string \<Rightarrow> string list" where
  "matched_names content = map (\<lambda>match. match ! 1) (FindAllStringSubmatch content)"

text \<open>
  A write to the body that is not output of \<open>Execute\<close>; a small template engine that
  parses everything and renders the concatenated texts; and two more sites. In
  \<open>stale_site\<close> the candidate \<open>tmpl/header.gohtml\<close>, listed at startup, can no longer be
  read. In \<open>looping_site\<close> the page includes \<open>gone.gohtml\<close>, which cannot be read, and
  \<open>loop.gohtml\<close>, which includes itself.
\<close>

fun is_error_text :: "body_write \<Rightarrow> bool" where
  "is_error_text (error_text err) = True"
| "is_error_text (rendered_output out) = False"

definition sample_engine :: "string list engine" where
  "sample_engine =
     \<lparr>template_New = (\<lambda>name. []),
      template_Parse = (\<lambda>t name text. Inr (t @ [text])),
      template_Execute = concat\<rparr>"

definition stale_site :: filesystem where
  "stale_site = \<lparr>UrlFS = Map.empty, os_files =
     [''src/about.gohtml'' \<mapsto> ''{{template \"header.gohtml\" .}}'']\<rparr>"

definition looping_site :: filesystem where
  "looping_site = \<lparr>UrlFS = Map.empty, os_files =
     [''src/index.gohtml'' \<mapsto> ''{{template \"gone.gohtml\"}}'' @ [CHR 0x0A] @ ''{{template \"loop.gohtml\"}}'',
      ''tmpl/loop.gohtml'' \<mapsto> ''{{template \"loop.gohtml\"}}'']\<rparr>"

definition looping_candidates :: "string list" where
  "looping_candidates = [''tmpl/gone.gohtml'', ''tmpl/loop.gohtml'']"

section \<open>Properties of \<open>Dict\<close>\<close>

lemma Dict_odd:
  "odd (length vs) \<Longrightarrow> Dict vs = Returns (Inl parameters_must_be_even)"
  by (simp add: Dict_def odd_iff_mod_2_eq_one)

lemma Dict_loop_pairs:
  "kvs \<noteq> [] \<Longrightarrow> Dict_loop dict (flatten_pairs kvs) = Returns (Inr (dict ++ map_of (rev kvs)))"
proof (induction kvs arbitrary: dict)
  case Nil
  then show ?case by simp
next
  case (Cons kv kvs)
  obtain k v where kv: "kv = (k, v)" by (cases kv)
  show ?case
  proof (cases "kvs = []")
    case True
    then show ?thesis by (auto simp: kv map_add_def fun_eq_iff)
  next
    case False
    then have ne: "flatten_pairs kvs \<noteq> []" by (cases kvs) auto
    have "Dict_loop dict (flatten_pairs (kv # kvs)) = Dict_loop (dict(k \<mapsto> v)) (flatten_pairs kvs)"
      using ne by (simp add: kv)
    also have "\<dots> = Returns (Inr (dict(k \<mapsto> v) ++ map_of (rev kvs)))"
      using Cons.IH [OF False] .
    also have "dict(k \<mapsto> v) ++ map_of (rev kvs) = dict ++ map_of (rev (kv # kvs))"
      by (rule ext) (auto simp: kv map_add_def split: option.splits)
    finally show ?thesis .
  qed
qed

lemma length_flatten_pairs: "length (flatten_pairs kvs) = 2 * length kvs"
  by (induction kvs) auto

lemma Dict_loop_bad_key:
  "even (length vs) \<Longrightarrow> \<exists>key \<in> set (keys_of vs). Kind_of key \<noteq> reflect_String \<Longrightarrow>
   \<forall>key \<in> set (keys_of vs). Kind_of key = reflect_String \<longrightarrow> assert_string key \<noteq> None \<Longrightarrow>
   Dict_loop dict vs = Returns (Inl type_must_equal_to_string)"
proof (induction dict vs rule: Dict_loop.induct)
  case (3 dict key val rest)
  then show ?case by (cases "rest = []") (auto split: option.splits simp: fun_upd_def)
qed auto

text \<open>
  \<open>Dict\<close> on an argument list of odd length returns the error
  \<open>parameters must be even\<close>, whatever the arguments are.
\<close>

theorem Dict_odd_length:
  "odd (length vs) \<Longrightarrow> Dict vs = Returns (Inl parameters_must_be_even)"
  by (rule Dict_odd)

theorem Dict_odd_length_witness:
  "odd (length [string_value ''k'', int_value 1, string_value ''l'']) \<and>
   Dict [string_value ''k'', int_value 1, string_value ''l''] = Returns (Inl parameters_must_be_even)"
  using Dict_odd_length [of "[string_value ''k'', int_value 1, string_value ''l'']"] by simp

text \<open>
  \<open>Dict\<close> on a non-empty list of alternating keys of type \<open>string\<close> and values returns
  the mapping of the pairs; where a key occurs twice, the later pair stands.
\<close>

theorem Dict_string_keys:
  "kvs \<noteq> [] \<Longrightarrow> Dict (flatten_pairs kvs) = Returns (Inr (map_of (rev kvs)))"
  by (simp add: Dict_def length_flatten_pairs Dict_loop_pairs)

theorem Dict_string_keys_witness:
  "[(''a'', int_value 1), (''b'', bool_value True), (''a'', nil_value)] \<noteq> [] \<and>
   Dict [string_value ''a'', int_value 1, string_value ''b'', bool_value True,
         string_value ''a'', nil_value] =
     Returns (Inr [''b'' \<mapsto> bool_value True, ''a'' \<mapsto> nil_value])"
  using Dict_string_keys [of "[(''a'', int_value 1), (''b'', bool_value True), (''a'', nil_value)]"]
  by simp

text \<open>
  \<open>Dict\<close> on a list of even length returns the error \<open>type must equal to "string"\<close>
  when some key is of a kind other than string, provided that no key is of a defined
  string type (on which the type assertion panics).
\<close>

theorem Dict_key_of_other_kind:
  "even (length vs) \<Longrightarrow> \<exists>key \<in> set (keys_of vs). Kind_of key \<noteq> reflect_String \<Longrightarrow>
   \<forall>key \<in> set (keys_of vs). Kind_of key = reflect_String \<longrightarrow> assert_string key \<noteq> None \<Longrightarrow>
   Dict vs = Returns (Inl type_must_equal_to_string)"
proof -
  assume e: "even (length vs)"
    and k: "\<exists>key \<in> set (keys_of vs). Kind_of key \<noteq> reflect_String"
    and s: "\<forall>key \<in> set (keys_of vs). Kind_of key = reflect_String \<longrightarrow> assert_string key \<noteq> None"
  from e have "length vs mod 2 = 0" by presburger
  with Dict_loop_bad_key [OF e k s] show ?thesis by (simp add: Dict_def)
qed

theorem Dict_key_of_other_kind_witness:
  "even (length [string_value ''a'', int_value 1, int_value 2, nil_value]) \<and>
   int_value 2 \<in> set (keys_of [string_value ''a'', int_value 1, int_value 2, nil_value]) \<and>
   Kind_of (int_value 2) \<noteq> reflect_String \<and>
   Dict [string_value ''a'', int_value 1, int_value 2, nil_value] =
     Returns (Inl type_must_equal_to_string)"
  using Dict_key_of_other_kind [of "[string_value ''a'', int_value 1, int_value 2, nil_value]"]
  by simp

text \<open>
  Claim C8, at the input \<open>Dict(template.HTML("k"), 1)\<close>. The key is of a defined type
  whose underlying type is string: its kind is \<open>reflect.String\<close>, so the \<open>switch\<close>
  takes the string case, and the type assertion \<open>key.(string)\<close> then panics. The key
  is not a \<open>string\<close>, the argument list has two elements, and yet \<open>Dict\<close> returns neither
  the error \<open>type must equal to "string"\<close> nor a mapping.
\<close>

theorem Dict_named_string_key_panics:
  "Dict [named_string_value ''template.HTML'' ''k'', int_value 1] = Panics interface_conversion"
  by (simp add: Dict_def)

text \<open>
  Claim C10: \<open>Dict\<close> called with no argument. The empty list has even length, so the
  length test passes; the loop body then reads \<open>values[0]\<close>, which is out of range.
  The call panics: it returns neither a mapping nor an error.
\<close>

theorem Dict_empty_panics:
  "Dict [] = Panics index_out_of_range"
  by (simp add: Dict_def)

section \<open>Properties of the resolver\<close>

lemma dom_collect_names:
  "dom (collect_names cur ml) = dom cur \<union> (\<lambda>m. m ! 1) ` set ml"
proof (induction ml arbitrary: cur)
  case Nil
  then show ?case by simp
next
  case (Cons m ml)
  show ?case
  proof (cases "cur (m ! 1) = None")
    case True
    then have "collect_names cur (m # ml) = collect_names (cur(m ! 1 \<mapsto> m ! 1)) ml"
      by (simp add: Let_def)
    then show ?thesis
      using Cons.IH [of "cur(m ! 1 \<mapsto> m ! 1)"] by (simp del: fun_upd_apply)
  next
    case False
    then have "collect_names cur (m # ml) = collect_names cur ml"
      by (simp add: Let_def)
    with False show ?thesis
      using Cons.IH [of cur] by auto
  qed
qed

lemma select_used_eq:
  "select_used rec cur acc all =
     (if list_all (\<lambda>q. rec q \<noteq> None) (filter (\<lambda>q. cur (Base q) \<noteq> None) all)
      then Some (acc @ concat (map (\<lambda>q. q # fList_of (rec q)) (filter (\<lambda>q. cur (Base q) \<noteq> None) all)))
      else None)"
proof (induction all arbitrary: acc)
  case Nil
  then show ?case by simp
next
  case (Cons q all)
  show ?case
  proof (cases "cur (Base q) \<noteq> None")
    case False
    then show ?thesis by (simp add: Cons.IH)
  next
    case True
    show ?thesis
    proof (cases "rec q")
      case None
      with True show ?thesis by simp
    next
      case (Some r)
      with True show ?thesis
        by (cases r) (simp_all add: Cons.IH fList_of_def)
    qed
  qed
qed

lemma getAllTmplName_Suc:
  "getAllTmplName (Suc n) fs p all e =
     (case ReadFile fs e p of
        None \<Rightarrow> Some (Inl (read_failed p))
      | Some content \<Rightarrow>
          (if list_all (\<lambda>q. getAllTmplName n fs q all e \<noteq> None) (direct fs e all p)
           then Some (Inr (concat (map (\<lambda>q. q # fList_of (getAllTmplName n fs q all e)) (direct fs e all p))))
           else None))"
proof (cases "ReadFile fs e p")
  case None
  then show ?thesis by simp
next
  case (Some content)
  show ?thesis
  proof (cases "FindAllStringSubmatch content = []")
    case True
    with Some show ?thesis by (simp add: direct_def references_def)
  next
    case False
    with Some show ?thesis
      by (simp add: direct_def references_def select_used_eq)
  qed
qed

declare getAllTmplName.simps(2) [simp del]

lemma getAllTmplName_mono_Suc:
  "getAllTmplName n fs p all e = Some r \<Longrightarrow> getAllTmplName (Suc n) fs p all e = Some r"
proof (induction n arbitrary: p r)
  case 0
  then show ?case by simp
next
  case (Suc n)
  show ?case
  proof (cases "ReadFile fs e p")
    case None
    with Suc.prems show ?thesis by (simp add: getAllTmplName_Suc)
  next
    case (Some content)
    from Suc.prems Some
    have all: "list_all (\<lambda>q. getAllTmplName n fs q all e \<noteq> None) (direct fs e all p)"
      and r: "r = Inr (concat (map (\<lambda>q. q # fList_of (getAllTmplName n fs q all e)) (direct fs e all p)))"
      by (auto simp: getAllTmplName_Suc [of n] split: if_splits)
    have same: "getAllTmplName (Suc n) fs q all e = getAllTmplName n fs q all e"
      if "q \<in> set (direct fs e all p)" for q
    proof -
      from all that obtain r' where "getAllTmplName n fs q all e = Some r'"
        by (auto simp: list_all_iff)
      with Suc.IH [OF this] show ?thesis by simp
    qed
    have A: "getAllTmplName (Suc (Suc n)) fs p all e =
       (if list_all (\<lambda>q. getAllTmplName (Suc n) fs q all e \<noteq> None) (direct fs e all p)
           then Some (Inr (concat (map (\<lambda>q. q # fList_of (getAllTmplName (Suc n) fs q all e)) (direct fs e all p))))
           else None)"
      using Some by (simp add: getAllTmplName_Suc [of "Suc n"])
    have B: "list_all (\<lambda>q. getAllTmplName (Suc n) fs q all e \<noteq> None) (direct fs e all p)"
      using all same by (simp add: list_all_iff)
    have C: "map (\<lambda>q. q # fList_of (getAllTmplName (Suc n) fs q all e)) (direct fs e all p)
       = map (\<lambda>q. q # fList_of (getAllTmplName n fs q all e)) (direct fs e all p)"
      using same by (intro map_cong) simp_all
    show ?thesis unfolding A r using B by (simp only: C if_True)
  qed
qed

lemma getAllTmplName_mono:
  "getAllTmplName n fs p all e = Some r \<Longrightarrow> n \<le> m \<Longrightarrow> getAllTmplName m fs p all e = Some r"
  by (induction m) (auto simp: le_Suc_eq dest: getAllTmplName_mono_Suc)

lemma direct_unreadable: "ReadFile fs e p = None \<Longrightarrow> direct fs e all p = []"
  by (simp add: direct_def references_def)

lemma refers_to_iff: "(p, q) \<in> refers_to fs e all \<longleftrightarrow> q \<in> set (direct fs e all p)"
  by (simp add: refers_to_def)

lemma refers_to_candidate: "(p, q) \<in> refers_to fs e all \<Longrightarrow> q \<in> set all"
  by (simp add: refers_to_def direct_def)

lemma refers_to_step:
  assumes "(p, q) \<in> refers_to fs e all" and "getAllTmplName n fs p all e = Some r"
  shows "\<exists>m<n. \<exists>r'. getAllTmplName m fs q all e = Some r'"
proof (cases n)
  case 0
  with assms(2) show ?thesis by simp
next
  case (Suc k)
  from assms(1) have q: "q \<in> set (direct fs e all p)" by (simp add: refers_to_iff)
  then obtain content where "ReadFile fs e p = Some content"
    by (cases "ReadFile fs e p") (auto simp: direct_unreadable)
  with assms(2) Suc have "list_all (\<lambda>q. getAllTmplName k fs q all e \<noteq> None) (direct fs e all p)"
    by (auto simp: getAllTmplName_Suc split: if_splits)
  with q have "getAllTmplName k fs q all e \<noteq> None" by (simp add: list_all_iff)
  with Suc show ?thesis by auto
qed

lemma refers_to_trancl_step:
  assumes "(p, q) \<in> (refers_to fs e all)\<^sup>+"
  shows "getAllTmplName n fs p all e = Some r \<Longrightarrow> \<exists>m<n. \<exists>r'. getAllTmplName m fs q all e = Some r'"
  using assms
proof (induction arbitrary: n r rule: converse_trancl_induct)
  case (base y)
  then show ?case by (rule refers_to_step)
next
  case (step y z)
  from refers_to_step [OF step.hyps(1) step.prems]
  obtain m r' where m: "m < n" "getAllTmplName m fs z all e = Some r'" by blast
  from step.IH [OF m(2)] m(1) show ?case by (meson less_trans)
qed

lemma cycle_never_returns:
  assumes "(q, q) \<in> (refers_to fs e all)\<^sup>+"
  shows "getAllTmplName n fs q all e = None"
proof (induction n rule: less_induct)
  case (less n)
  show ?case
  proof (cases "getAllTmplName n fs q all e")
    case None
    then show ?thesis .
  next
    case (Some r)
    from refers_to_trancl_step [OF assms Some] less.IH show ?thesis by auto
  qed
qed

lemma reaches_cycle_never_returns:
  assumes "(p, q) \<in> (refers_to fs e all)\<^sup>*" and "(q, q) \<in> (refers_to fs e all)\<^sup>+"
  shows "getAllTmplName n fs p all e = None"
proof (cases "p = q")
  case True
  with assms(2) show ?thesis by (simp add: cycle_never_returns)
next
  case False
  with assms(1) have pq: "(p, q) \<in> (refers_to fs e all)\<^sup>+" by (simp add: rtrancl_eq_or_trancl)
  show ?thesis
  proof (cases "getAllTmplName n fs p all e")
    case None
    then show ?thesis .
  next
    case (Some r)
    from refers_to_trancl_step [OF pq Some] cycle_never_returns [OF assms(2)]
    show ?thesis by auto
  qed
qed

lemma failed_result_unreadable:
  "getAllTmplName n fs p all e = Some (Inl err) \<Longrightarrow> ReadFile fs e p = None \<and> err = read_failed p"
  by (cases n) (auto simp: getAllTmplName_Suc split: option.splits if_splits)

lemma no_edges_no_trancl: "direct fs e all p = [] \<Longrightarrow> (p, x) \<notin> (refers_to fs e all)\<^sup>+"
  by (auto simp: refers_to_iff dest: tranclD)

lemma trancl_via_direct:
  "{x. (p, x) \<in> (refers_to fs e all)\<^sup>+} =
     (\<Union>q \<in> set (direct fs e all p). insert q {x. (q, x) \<in> (refers_to fs e all)\<^sup>+})"
proof (intro set_eqI iffI)
  fix x assume "x \<in> {x. (p, x) \<in> (refers_to fs e all)\<^sup>+}"
  then have "(p, x) \<in> (refers_to fs e all)\<^sup>+" by simp
  then obtain q where "(p, q) \<in> refers_to fs e all" "(q, x) \<in> (refers_to fs e all)\<^sup>*"
    by (meson tranclD)
  then show "x \<in> (\<Union>q \<in> set (direct fs e all p). insert q {x. (q, x) \<in> (refers_to fs e all)\<^sup>+})"
    by (auto simp: refers_to_iff rtrancl_eq_or_trancl)
next
  fix x assume "x \<in> (\<Union>q \<in> set (direct fs e all p). insert q {x. (q, x) \<in> (refers_to fs e all)\<^sup>+})"
  then obtain q where q: "q \<in> set (direct fs e all p)" and x: "x = q \<or> (q, x) \<in> (refers_to fs e all)\<^sup>+"
    by auto
  from q have "(p, q) \<in> refers_to fs e all" by (simp add: refers_to_iff)
  with x show "x \<in> {x. (p, x) \<in> (refers_to fs e all)\<^sup>+}"
    by (auto intro: trancl_into_trancl2)
qed

lemma set_result:
  "getAllTmplName n fs p all e = Some r \<Longrightarrow>
   set (fList_of (Some r)) = {x. (p, x) \<in> (refers_to fs e all)\<^sup>+}"
proof (induction n arbitrary: p r)
  case 0
  then show ?case by simp
next
  case (Suc n)
  show ?case
  proof (cases "ReadFile fs e p")
    case None
    with Suc.prems have "r = Inl (read_failed p)" by (simp add: getAllTmplName_Suc)
    with None show ?thesis
      by (simp add: fList_of_def no_edges_no_trancl direct_unreadable)
  next
    case (Some content)
    with Suc.prems
    have every: "list_all (\<lambda>q. getAllTmplName n fs q all e \<noteq> None) (direct fs e all p)"
      and r: "r = Inr (concat (map (\<lambda>q. q # fList_of (getAllTmplName n fs q all e)) (direct fs e all p)))"
      by (auto simp: getAllTmplName_Suc split: if_splits)
    have sub: "set (fList_of (getAllTmplName n fs q all e)) = {x. (q, x) \<in> (refers_to fs e all)\<^sup>+}"
      if "q \<in> set (direct fs e all p)" for q
    proof -
      from every that obtain rq where "getAllTmplName n fs q all e = Some rq"
        by (auto simp: list_all_iff)
      with Suc.IH [OF this] show ?thesis by simp
    qed
    have "set (fList_of (Some r)) =
       (\<Union>q \<in> set (direct fs e all p). insert q (set (fList_of (getAllTmplName n fs q all e))))"
      by (simp add: r fList_of_def)
    also have "\<dots> = (\<Union>q \<in> set (direct fs e all p). insert q {x. (q, x) \<in> (refers_to fs e all)\<^sup>+})"
      using sub by simp
    also have "\<dots> = {x. (p, x) \<in> (refers_to fs e all)\<^sup>+}"
      by (rule trancl_via_direct [symmetric])
    finally show ?thesis .
  qed
qed

lemma uniform_depth:
  "(\<forall>q \<in> set qs. \<exists>n r. getAllTmplName n fs q all e = Some r) \<Longrightarrow>
   \<exists>N. \<forall>q \<in> set qs. getAllTmplName N fs q all e \<noteq> None"
proof (induction qs)
  case Nil
  then show ?case by simp
next
  case (Cons q qs)
  then obtain N where N: "\<forall>q \<in> set qs. getAllTmplName N fs q all e \<noteq> None" by auto
  from Cons.prems obtain n r where n: "getAllTmplName n fs q all e = Some r" by auto
  have "getAllTmplName (max n N) fs q all e \<noteq> None"
    using getAllTmplName_mono [OF n, of "max n N"] by simp
  moreover have "getAllTmplName (max n N) fs q' all e \<noteq> None" if "q' \<in> set qs" for q'
  proof -
    from N that obtain r' where "getAllTmplName N fs q' all e = Some r'" by auto
    from getAllTmplName_mono [OF this, of "max n N"] show ?thesis by simp
  qed
  ultimately show ?case by (intro exI [of _ "max n N"]) auto
qed

lemma returns_if_children_return:
  assumes "\<forall>q \<in> set (direct fs e all p). \<exists>n r. getAllTmplName n fs q all e = Some r"
  shows "\<exists>n r. getAllTmplName n fs p all e = Some r"
proof -
  from uniform_depth [OF assms] obtain N
    where "\<forall>q \<in> set (direct fs e all p). getAllTmplName N fs q all e \<noteq> None" by blast
  then have "getAllTmplName (Suc N) fs p all e \<noteq> None"
    by (simp add: getAllTmplName_Suc list_all_iff split: option.splits)
  then show ?thesis by blast
qed

lemma acyclic_returns:
  assumes acyc: "\<forall>q. (p, q) \<in> (refers_to fs e all)\<^sup>* \<longrightarrow> (q, q) \<notin> (refers_to fs e all)\<^sup>+"
  shows "\<exists>n r. getAllTmplName n fs p all e = Some r"
proof -
  let ?R = "refers_to fs e all"
  define S where "S = {(q, q'). (q', q) \<in> ?R \<and> (p, q') \<in> ?R\<^sup>*}"
  have reach: "(p, x) \<in> ?R\<^sup>* \<and> (p, y) \<in> ?R\<^sup>*" if "(x, y) \<in> S" for x y
    using that by (auto simp: S_def intro: rtrancl_into_rtrancl)
  have "S \<subseteq> set all \<times> (insert p (set all))"
    by (auto simp: S_def dest: refers_to_candidate rtranclD tranclD2)
  then have fin: "finite S" by (rule finite_subset) simp
  have S_trancl: "(y, x) \<in> ?R\<^sup>+ \<and> (p, x) \<in> ?R\<^sup>*" if "(x, y) \<in> S\<^sup>+" for x y
    using that
  proof (induction rule: trancl_induct)
    case (base y)
    then show ?case using reach [of x y] by (auto simp: S_def)
  next
    case (step y z)
    then have "(z, y) \<in> ?R" by (simp add: S_def)
    with step.IH show ?case by (auto intro: trancl_into_trancl2)
  qed
  have "acyclic S"
    unfolding acyclic_def using S_trancl acyc by blast
  with fin have "wf S" by (rule finite_acyclic_wf)
  then have "(p, x) \<in> ?R\<^sup>* \<longrightarrow> (\<exists>n r. getAllTmplName n fs x all e = Some r)" for x
  proof (induction x rule: wf_induct_rule)
    case (less x)
    show ?case
    proof
      assume x: "(p, x) \<in> ?R\<^sup>*"
      have "\<exists>n r. getAllTmplName n fs q all e = Some r" if "q \<in> set (direct fs e all x)" for q
      proof -
        from that have xq: "(x, q) \<in> ?R" by (simp add: refers_to_iff)
        with x have "(q, x) \<in> S" by (simp add: S_def)
        moreover from x xq have "(p, q) \<in> ?R\<^sup>*" by (rule rtrancl_into_rtrancl)
        ultimately show ?thesis using less.IH by blast
      qed
      then show "\<exists>n r. getAllTmplName n fs x all e = Some r"
        by (intro returns_if_children_return) blast
    qed
  qed
  then show ?thesis by blast
qed

lemma returns_imp_acyclic:
  "getAllTmplName n fs p all e = Some r \<Longrightarrow> acyclic_from fs e all p"
  unfolding acyclic_from_def reaches_cycle_def
  using reaches_cycle_never_returns [of p _ fs e all n] by auto

lemma acyclic_iff_returns:
  "acyclic_from fs e all p \<longleftrightarrow> (\<exists>n r. getAllTmplName n fs p all e = Some r)"
proof
  assume "acyclic_from fs e all p"
  then show "\<exists>n r. getAllTmplName n fs p all e = Some r"
    by (intro acyclic_returns) (auto simp: acyclic_from_def reaches_cycle_def)
next
  assume "\<exists>n r. getAllTmplName n fs p all e = Some r"
  then show "acyclic_from fs e all p" by (auto dest: returns_imp_acyclic)
qed

lemma result_candidates:
  "getAllTmplName n fs p all e = Some (Inr l) \<Longrightarrow> set l \<subseteq> set all"
  using set_result [of n fs p all e "Inr l"]
  by (auto simp: fList_of_def dest: tranclD2 refers_to_candidate)

text \<open>
  Claim C1, as the code has it. \<open>getAllTmplName\<close> keeps no record of the files it has
  visited, so on a page that reaches a reference cycle (a file that transitively
  includes itself by base name) the recursion never ends: whatever depth of recursion
  is allowed, the call has not returned, and no bundle is produced.
\<close>

theorem cycle_never_resolves:
  "reaches_cycle fs isEmbed allTmpl filePath \<Longrightarrow>
   getAllTmplName depth fs filePath allTmpl isEmbed = None"
  unfolding reaches_cycle_def by (auto intro: reaches_cycle_never_returns)

lemma cyclic_site_edges:
  "direct cyclic_site False cyclic_candidates ''src/a.gohtml'' = [''tmpl/b.gohtml'']"
  "direct cyclic_site False cyclic_candidates ''tmpl/b.gohtml'' = [''tmpl/a.gohtml'']"
  "direct cyclic_site False cyclic_candidates ''tmpl/a.gohtml'' = [''tmpl/b.gohtml'']"
  by code_simp+

lemma cyclic_site_cycle:
  "(''tmpl/a.gohtml'', ''tmpl/a.gohtml'') \<in> (refers_to cyclic_site False cyclic_candidates)\<^sup>+"
proof -
  have "(''tmpl/a.gohtml'', ''tmpl/b.gohtml'') \<in> refers_to cyclic_site False cyclic_candidates"
    by (simp add: refers_to_iff cyclic_site_edges)
  moreover have "(''tmpl/b.gohtml'', ''tmpl/a.gohtml'') \<in> refers_to cyclic_site False cyclic_candidates"
    by (simp add: refers_to_iff cyclic_site_edges)
  ultimately show ?thesis by (rule trancl_into_trancl [OF r_into_trancl])
qed

lemma cyclic_site_reaches:
  "reaches_cycle cyclic_site False cyclic_candidates ''src/a.gohtml''"
  "reaches_cycle cyclic_site False cyclic_candidates ''tmpl/a.gohtml''"
proof -
  have "(''src/a.gohtml'', ''tmpl/b.gohtml'') \<in> refers_to cyclic_site False cyclic_candidates"
    by (simp add: refers_to_iff cyclic_site_edges)
  moreover have "(''tmpl/b.gohtml'', ''tmpl/a.gohtml'') \<in> refers_to cyclic_site False cyclic_candidates"
    by (simp add: refers_to_iff cyclic_site_edges)
  ultimately have "(''src/a.gohtml'', ''tmpl/a.gohtml'') \<in> (refers_to cyclic_site False cyclic_candidates)\<^sup>*"
    by (meson rtrancl.simps)
  with cyclic_site_cycle show "reaches_cycle cyclic_site False cyclic_candidates ''src/a.gohtml''"
    unfolding reaches_cycle_def by blast
  from cyclic_site_cycle show "reaches_cycle cyclic_site False cyclic_candidates ''tmpl/a.gohtml''"
    unfolding reaches_cycle_def by blast
qed

theorem cycle_never_resolves_witness:
  "reaches_cycle cyclic_site False cyclic_candidates ''src/a.gohtml'' \<and>
   getAllTmplName 1000 cyclic_site ''src/a.gohtml'' cyclic_candidates False = None"
  using cycle_never_resolves [OF cyclic_site_reaches(1), of 1000] cyclic_site_reaches(1) by simp

text \<open>
  The claim fails on \<open>cyclic_site\<close>: \<open>a.gohtml\<close> includes \<open>b.gohtml\<close> and
  \<open>b.gohtml\<close> includes \<open>a.gohtml\<close>, and the resolution of the page
  \<open>src/a.gohtml\<close>, like that of \<open>tmpl/a.gohtml\<close> itself, returns at no depth.
\<close>

theorem cyclic_site_does_not_terminate:
  "(''tmpl/a.gohtml'', ''tmpl/b.gohtml'') \<in> refers_to cyclic_site False cyclic_candidates \<and>
   (''tmpl/b.gohtml'', ''tmpl/a.gohtml'') \<in> refers_to cyclic_site False cyclic_candidates \<and>
   (\<forall>depth. getAllTmplName depth cyclic_site ''src/a.gohtml'' cyclic_candidates False = None) \<and>
   (\<forall>depth. getAllTmplName depth cyclic_site ''tmpl/a.gohtml'' cyclic_candidates False = None)"
proof -
  have "getAllTmplName depth cyclic_site ''src/a.gohtml'' cyclic_candidates False = None"
    and "getAllTmplName depth cyclic_site ''tmpl/a.gohtml'' cyclic_candidates False = None"
    for depth
    using cyclic_site_reaches
    by (auto simp: reaches_cycle_def intro: reaches_cycle_never_returns)
  then show ?thesis
    by (simp add: refers_to_iff cyclic_site_edges)
qed

lemma chains_unfold:
  "chains fs e all p q =
     (\<Union>c \<in> set (direct fs e all p). (if c = q then {[c]} else {}) \<union> (Cons c) ` chains fs e all c q)"
proof (intro set_eqI iffI)
  fix cs assume "cs \<in> chains fs e all p q"
  then obtain c cs' where cs: "cs = c # cs'" and l: "last cs = q"
    and c: "c \<in> set (direct fs e all p)" and ch: "is_chain fs e all c cs'"
    by (cases cs) (auto simp: chains_def)
  show "cs \<in> (\<Union>c \<in> set (direct fs e all p). (if c = q then {[c]} else {}) \<union> (Cons c) ` chains fs e all c q)"
  proof (cases "cs' = []")
    case True
    with cs l c show ?thesis by auto
  next
    case False
    with cs l ch have "cs' \<in> chains fs e all c q" by (simp add: chains_def)
    with cs c show ?thesis by auto
  qed
next
  fix cs assume "cs \<in> (\<Union>c \<in> set (direct fs e all p). (if c = q then {[c]} else {}) \<union> (Cons c) ` chains fs e all c q)"
  then show "cs \<in> chains fs e all p q"
    by (auto simp: chains_def split: if_splits)
qed

lemma chains_no_edges: "direct fs e all p = [] \<Longrightarrow> chains fs e all p q = {}"
  by (subst chains_unfold) simp

lemma count_list_concat_map:
  "count_list (concat (map f xs)) q = (\<Sum>x\<leftarrow>xs. count_list (f x) q)"
  by (induction xs) (simp_all add: count_list_append)

lemma direct_distinct: "distinct all \<Longrightarrow> distinct (direct fs e all p)"
  by (simp add: direct_def)

lemma occurrences_are_chains:
  assumes d: "distinct all"
  shows "getAllTmplName n fs p all e = Some r \<Longrightarrow>
    finite (chains fs e all p q) \<and> count_list (fList_of (Some r)) q = card (chains fs e all p q)"
proof (induction n arbitrary: p r)
  case 0
  then show ?case by simp
next
  case (Suc n)
  let ?D = "direct fs e all p"
  let ?A = "\<lambda>c. (if c = q then {[c]} else {}) \<union> (Cons c) ` chains fs e all c q"
  show ?case
  proof (cases "ReadFile fs e p")
    case None
    with Suc.prems have "r = Inl (read_failed p)" by (simp add: getAllTmplName_Suc)
    with None show ?thesis
      by (simp add: fList_of_def chains_no_edges direct_unreadable)
  next
    case (Some content)
    with Suc.prems
    have every: "list_all (\<lambda>c. getAllTmplName n fs c all e \<noteq> None) ?D"
      and r: "r = Inr (concat (map (\<lambda>c. c # fList_of (getAllTmplName n fs c all e)) ?D))"
      by (auto simp: getAllTmplName_Suc split: if_splits)
    have sub: "finite (chains fs e all c q) \<and>
        count_list (fList_of (getAllTmplName n fs c all e)) q = card (chains fs e all c q)"
      if "c \<in> set ?D" for c
    proof -
      from every that obtain rc where "getAllTmplName n fs c all e = Some rc"
        by (auto simp: list_all_iff)
      with Suc.IH [OF this] show ?thesis by simp
    qed
    have finA: "finite (?A c)" if "c \<in> set ?D" for c
      using sub [OF that] by simp
    have cardA: "card (?A c) = (if c = q then 1 else 0) + card (chains fs e all c q)"
      if "c \<in> set ?D" for c
    proof -
      have "card ((Cons c) ` chains fs e all c q) = card (chains fs e all c q)"
        by (rule card_image) (simp add: inj_on_def)
      moreover have "(if c = q then {[c]} else {}) \<inter> (Cons c) ` chains fs e all c q = {}"
        by (auto simp: chains_def)
      moreover have "finite ((Cons c) ` chains fs e all c q)"
        using sub [OF that] by simp
      ultimately show ?thesis
        by (simp add: card_Un_disjoint)
    qed
    have disj: "?A c \<inter> ?A c' = {}" if "c \<noteq> c'" for c c'
      using that by auto
    have U: "chains fs e all p q = (\<Union>c \<in> set ?D. ?A c)"
      by (rule chains_unfold)
    have fin: "finite (chains fs e all p q)"
      unfolding U using finA by blast
    have "card (chains fs e all p q) = (\<Sum>c \<in> set ?D. card (?A c))"
      unfolding U using finA disj by (intro card_UN_disjoint) auto
    also have "\<dots> = (\<Sum>c \<in> set ?D. (if c = q then 1 else 0) + card (chains fs e all c q))"
      using cardA by (intro sum.cong) auto
    also have "\<dots> = (\<Sum>c \<in> set ?D. count_list (c # fList_of (getAllTmplName n fs c all e)) q)"
      using sub by (intro sum.cong) auto
    also have "\<dots> = (\<Sum>c\<leftarrow>?D. count_list (c # fList_of (getAllTmplName n fs c all e)) q)"
      using direct_distinct [OF d, of fs e p] by (simp add: sum_list_distinct_conv_sum_set)
    also have "\<dots> = count_list (fList_of (Some r)) q"
      by (simp add: r fList_of_def count_list_concat_map)
    finally show ?thesis using fin by simp
  qed
qed


lemma chain_trancl:
  "is_chain fs e all p cs \<Longrightarrow> cs \<noteq> [] \<Longrightarrow> (p, last cs) \<in> (refers_to fs e all)\<^sup>+"
proof (induction cs arbitrary: p)
  case Nil
  then show ?case by simp
next
  case (Cons c cs)
  then have pc: "(p, c) \<in> refers_to fs e all" by (simp add: refers_to_iff)
  show ?case
  proof (cases "cs = []")
    case True
    with pc show ?thesis by auto
  next
    case False
    with Cons have "(c, last cs) \<in> (refers_to fs e all)\<^sup>+" by simp
    with pc False show ?thesis by (auto intro: trancl_into_trancl2)
  qed
qed

lemma acyclic_no_chain_back:
  "acyclic_from fs e all p \<Longrightarrow> chains fs e all p p = {}"
  unfolding acyclic_from_def reaches_cycle_def chains_def
  using chain_trancl [of fs e all p] by blast

text \<open>
  Claim C2, as the code has it. For a readable page whose reference closure is
  acyclic, the resolution returns; the paths of the bundle are exactly the page and
  the candidates it transitively references, and the page is its last element.
  When the candidate list has no repetition, the page occurs once in the bundle and
  every candidate occurs in it once for each chain of references that leads to it
  from the page: exactly once only where a single chain does.
\<close>

theorem acyclic_bundle:
  assumes "ReadFile fs isEmbed filePath \<noteq> None"
    and "acyclic_from fs isEmbed allTmpl filePath"
  shows "\<exists>depth filterTmpl.
     getAllTmplName depth fs filePath allTmpl isEmbed = Some (Inr filterTmpl) \<and>
     set (bundle_of filterTmpl filePath) =
       insert filePath (transitively_referenced fs isEmbed allTmpl filePath) \<and>
     last (bundle_of filterTmpl filePath) = filePath \<and>
     (distinct allTmpl \<longrightarrow>
        count_list (bundle_of filterTmpl filePath) filePath = 1 \<and>
        (\<forall>q. q \<noteq> filePath \<longrightarrow>
           count_list (bundle_of filterTmpl filePath) q = card (chains fs isEmbed allTmpl filePath q)))"
proof -
  from assms(2) obtain n r where n: "getAllTmplName n fs filePath allTmpl isEmbed = Some r"
    by (auto simp: acyclic_iff_returns)
  with assms(1) obtain l where r: "r = Inr l"
    by (cases r) (auto dest: failed_result_unreadable)
  from set_result [OF n] have s: "set l = transitively_referenced fs isEmbed allTmpl filePath"
    by (simp add: r fList_of_def transitively_referenced_def)
  have "count_list l q = card (chains fs isEmbed allTmpl filePath q)" if "distinct allTmpl" for q
    using occurrences_are_chains [OF that n, of q] by (simp add: r fList_of_def)
  then have "distinct allTmpl \<longrightarrow>
      count_list (bundle_of l filePath) filePath = 1 \<and>
      (\<forall>q. q \<noteq> filePath \<longrightarrow>
         count_list (bundle_of l filePath) q = card (chains fs isEmbed allTmpl filePath q))"
    using acyclic_no_chain_back [OF assms(2)] by (simp add: bundle_of_def count_list_append)
  with n r s show ?thesis by (auto simp: bundle_of_def)
qed

lemma diamond_result:
  "getAllTmplName 3 diamond_site ''src/index.gohtml'' diamond_candidates False =
     Some (Inr [''tmpl/a.gohtml'', ''tmpl/c.gohtml'', ''tmpl/b.gohtml'', ''tmpl/c.gohtml''])"
  by code_simp

text \<open>
  The claim's ``each path exactly once'' fails on \<open>diamond_site\<close>, whose reference
  closure is acyclic: \<open>c.gohtml\<close> is included by both \<open>a.gohtml\<close> and \<open>b.gohtml\<close>
  and occurs twice in the bundle.
\<close>

theorem diamond_site_repeats_a_path:
  "acyclic_from diamond_site False diamond_candidates ''src/index.gohtml'' \<and>
   getAllTmplName 3 diamond_site ''src/index.gohtml'' diamond_candidates False =
     Some (Inr [''tmpl/a.gohtml'', ''tmpl/c.gohtml'', ''tmpl/b.gohtml'', ''tmpl/c.gohtml'']) \<and>
   count_list (bundle_of [''tmpl/a.gohtml'', ''tmpl/c.gohtml'', ''tmpl/b.gohtml'', ''tmpl/c.gohtml'']
     ''src/index.gohtml'') ''tmpl/c.gohtml'' = 2"
  using returns_imp_acyclic [OF diamond_result] diamond_result
  by (simp add: bundle_of_def)

lemma about_result:
  "getAllTmplName 2 about_site ''src/about.gohtml'' [''tmpl/header.gohtml''] False =
     Some (Inr [''tmpl/header.gohtml''])"
  by code_simp

theorem acyclic_bundle_witness:
  "ReadFile about_site False ''src/about.gohtml'' \<noteq> None \<and>
   acyclic_from about_site False [''tmpl/header.gohtml''] ''src/about.gohtml'' \<and>
   distinct [''tmpl/header.gohtml''] \<and>
   (\<exists>depth filterTmpl.
      getAllTmplName depth about_site ''src/about.gohtml'' [''tmpl/header.gohtml''] False =
        Some (Inr filterTmpl) \<and>
      set (bundle_of filterTmpl ''src/about.gohtml'') =
        insert ''src/about.gohtml''
          (transitively_referenced about_site False [''tmpl/header.gohtml''] ''src/about.gohtml'') \<and>
      last (bundle_of filterTmpl ''src/about.gohtml'') = ''src/about.gohtml'' \<and>
      count_list (bundle_of filterTmpl ''src/about.gohtml'') ''src/about.gohtml'' = 1 \<and>
      count_list (bundle_of filterTmpl ''src/about.gohtml'') ''tmpl/header.gohtml'' =
        card (chains about_site False [''tmpl/header.gohtml''] ''src/about.gohtml'' ''tmpl/header.gohtml'')) \<and>
   getAllTmplName 2 about_site ''src/about.gohtml'' [''tmpl/header.gohtml''] False =
     Some (Inr [''tmpl/header.gohtml'']) \<and>
   bundle_of [''tmpl/header.gohtml''] ''src/about.gohtml'' = [''tmpl/header.gohtml'', ''src/about.gohtml'']"
proof -
  have r: "ReadFile about_site False ''src/about.gohtml'' \<noteq> None"
    by (simp add: ReadFile_def about_site_def)
  have a: "acyclic_from about_site False [''tmpl/header.gohtml''] ''src/about.gohtml''"
    using about_result by (rule returns_imp_acyclic)
  from acyclic_bundle [OF r a] obtain depth filterTmpl where
    "getAllTmplName depth about_site ''src/about.gohtml'' [''tmpl/header.gohtml''] False =
       Some (Inr filterTmpl)"
    "set (bundle_of filterTmpl ''src/about.gohtml'') =
       insert ''src/about.gohtml''
         (transitively_referenced about_site False [''tmpl/header.gohtml''] ''src/about.gohtml'')"
    "last (bundle_of filterTmpl ''src/about.gohtml'') = ''src/about.gohtml''"
    "count_list (bundle_of filterTmpl ''src/about.gohtml'') ''src/about.gohtml'' = 1"
    "count_list (bundle_of filterTmpl ''src/about.gohtml'') ''tmpl/header.gohtml'' =
       card (chains about_site False [''tmpl/header.gohtml''] ''src/about.gohtml'' ''tmpl/header.gohtml'')"
    by auto
  with r a about_result show ?thesis by (simp add: bundle_of_def) blast
qed

text \<open>
  Claim C3, as the code has it. The bundle of a resolution that returns is not
  empty, the page's own path is its last element, and every element before it is a
  candidate of the list. (The same path can occur more than once.)
\<close>

theorem bundle_nonempty_page_last:
  "getAllTmplName depth fs curSrc tmplFileList isEmbed = Some (Inr filterTmpl) \<Longrightarrow>
   bundle_of filterTmpl curSrc \<noteq> [] \<and>
   last (bundle_of filterTmpl curSrc) = curSrc \<and>
   set (butlast (bundle_of filterTmpl curSrc)) \<subseteq> set tmplFileList"
  by (simp add: bundle_of_def result_candidates)

lemma shared_result:
  "getAllTmplName 3 shared_site ''src/index.gohtml'' shared_candidates False =
     Some (Inr [''tmpl/header.gohtml'', ''tmpl/nav.gohtml'', ''tmpl/nav.gohtml''])"
  by code_simp

theorem bundle_nonempty_page_last_witness:
  "getAllTmplName 3 shared_site ''src/index.gohtml'' shared_candidates False =
     Some (Inr [''tmpl/header.gohtml'', ''tmpl/nav.gohtml'', ''tmpl/nav.gohtml'']) \<and>
   bundle_of [''tmpl/header.gohtml'', ''tmpl/nav.gohtml'', ''tmpl/nav.gohtml''] ''src/index.gohtml'' \<noteq> [] \<and>
   last (bundle_of [''tmpl/header.gohtml'', ''tmpl/nav.gohtml'', ''tmpl/nav.gohtml''] ''src/index.gohtml'')
     = ''src/index.gohtml'' \<and>
   set (butlast (bundle_of [''tmpl/header.gohtml'', ''tmpl/nav.gohtml'', ''tmpl/nav.gohtml'']
     ''src/index.gohtml'')) \<subseteq> set shared_candidates"
  using bundle_nonempty_page_last [OF shared_result] shared_result by simp

text \<open>
  The claim's ``no path appears twice'' fails on \<open>shared_site\<close>: the page includes the
  header and the navigation, the header includes the navigation as well, and the
  resolution returns a bundle that holds \<open>tmpl/nav.gohtml\<close> twice.
\<close>

theorem shared_site_bundle_not_distinct:
  "getAllTmplName 3 shared_site ''src/index.gohtml'' shared_candidates False =
     Some (Inr [''tmpl/header.gohtml'', ''tmpl/nav.gohtml'', ''tmpl/nav.gohtml'']) \<and>
   \<not> distinct (bundle_of [''tmpl/header.gohtml'', ''tmpl/nav.gohtml'', ''tmpl/nav.gohtml'']
     ''src/index.gohtml'')"
  using shared_result by (simp add: bundle_of_def)

text \<open>
  Claim C5. One call of \<open>getAllTmplName\<close> on a readable file appends, of the
  candidates and in their order, exactly those whose base name (\<open>filepath.Base\<close>) is a
  key of the file's reference set, each followed by what the recursive call on it
  returned. The full path of a candidate plays no part in the selection.
\<close>

theorem selection_by_base_name:
  "ReadFile fs isEmbed filePath = Some content \<Longrightarrow>
   getAllTmplName (Suc depth) fs filePath allTmpl isEmbed = Some (Inr filterTmpl) \<Longrightarrow>
   filterTmpl =
     concat (map (\<lambda>tmplFilepath. tmplFilepath # fList_of (getAllTmplName depth fs tmplFilepath allTmpl isEmbed))
       (filter (\<lambda>tmplFilepath. Base tmplFilepath \<in> dom (extract_names content)) allTmpl))"
proof -
  assume c: "ReadFile fs isEmbed filePath = Some content"
    and r: "getAllTmplName (Suc depth) fs filePath allTmpl isEmbed = Some (Inr filterTmpl)"
  have "direct fs isEmbed allTmpl filePath =
      filter (\<lambda>tmplFilepath. Base tmplFilepath \<in> dom (extract_names content)) allTmpl"
    by (simp add: direct_def references_def c extract_names_def domIff)
  with r c show ?thesis
    by (simp add: getAllTmplName_Suc split: if_splits)
qed

lemma basename_result:
  "getAllTmplName (Suc 1) basename_site ''src/index.gohtml'' basename_candidates False =
     Some (Inr [''tmpl/x/h.gohtml'', ''tmpl/y/h.gohtml''])"
  by code_simp

lemma basename_content:
  "ReadFile basename_site False ''src/index.gohtml'' =
     Some (''{{template \"h.gohtml\"}}'' @ [CHR 0x0A] @ ''{{template \"tmpl/z.gohtml\"}}'')"
  by (simp add: ReadFile_def basename_site_def)

lemma basename_names:
  "dom (extract_names (''{{template \"h.gohtml\"}}'' @ [CHR 0x0A] @ ''{{template \"tmpl/z.gohtml\"}}''))
     = {''h.gohtml'', ''tmpl/z.gohtml''}"
  by (simp add: extract_names_def reTmpl_def lits_def Let_def insert_commute)

theorem selection_by_base_name_witness:
  "ReadFile basename_site False ''src/index.gohtml'' =
     Some (''{{template \"h.gohtml\"}}'' @ [CHR 0x0A] @ ''{{template \"tmpl/z.gohtml\"}}'') \<and>
   getAllTmplName (Suc 1) basename_site ''src/index.gohtml'' basename_candidates False =
     Some (Inr [''tmpl/x/h.gohtml'', ''tmpl/y/h.gohtml'']) \<and>
   [''tmpl/x/h.gohtml'', ''tmpl/y/h.gohtml''] =
     concat (map (\<lambda>tmplFilepath. tmplFilepath #
         fList_of (getAllTmplName 1 basename_site tmplFilepath basename_candidates False))
       (filter (\<lambda>tmplFilepath. Base tmplFilepath \<in>
           dom (extract_names (''{{template \"h.gohtml\"}}'' @ [CHR 0x0A] @ ''{{template \"tmpl/z.gohtml\"}}'')))
         basename_candidates)) \<and>
   dom (extract_names (''{{template \"h.gohtml\"}}'' @ [CHR 0x0A] @ ''{{template \"tmpl/z.gohtml\"}}''))
     = {''h.gohtml'', ''tmpl/z.gohtml''}"
  using selection_by_base_name [OF basename_content basename_result] basename_content
    basename_result basename_names
  by simp

lemma getAllTmplName_deterministic:
  assumes "getAllTmplName n fs p all e = Some r" and "getAllTmplName m fs p all e = Some r'"
  shows "r = r'"
proof -
  have "getAllTmplName (max n m) fs p all e = Some r" "getAllTmplName (max n m) fs p all e = Some r'"
    using assms by (auto intro: getAllTmplName_mono)
  then show ?thesis by simp
qed

text \<open>
  Claim C9. The file contents being the same, two resolutions of the same page
  against the same candidate list that return, whatever depth of recursion each was
  given, return the same bundle: the same paths in the same order. (The source only
  looks keys up in \<open>curTmplSet\<close> and never ranges over it, so the order in which Go
  iterates over a map does not enter the result.)
\<close>

theorem resolution_deterministic:
  "getAllTmplName depth fs filePath allTmpl isEmbed = Some (Inr filterTmpl) \<Longrightarrow>
   getAllTmplName depth' fs filePath allTmpl isEmbed = Some (Inr filterTmpl') \<Longrightarrow>
   bundle_of filterTmpl filePath = bundle_of filterTmpl' filePath"
  by (drule (1) getAllTmplName_deterministic) simp

lemma diamond_result_deeper:
  "getAllTmplName 7 diamond_site ''src/index.gohtml'' diamond_candidates False =
     Some (Inr [''tmpl/a.gohtml'', ''tmpl/c.gohtml'', ''tmpl/b.gohtml'', ''tmpl/c.gohtml''])"
  by code_simp

theorem resolution_deterministic_witness:
  "getAllTmplName 3 diamond_site ''src/index.gohtml'' diamond_candidates False =
     Some (Inr [''tmpl/a.gohtml'', ''tmpl/c.gohtml'', ''tmpl/b.gohtml'', ''tmpl/c.gohtml'']) \<and>
   getAllTmplName 7 diamond_site ''src/index.gohtml'' diamond_candidates False =
     Some (Inr [''tmpl/a.gohtml'', ''tmpl/c.gohtml'', ''tmpl/b.gohtml'', ''tmpl/c.gohtml'']) \<and>
   bundle_of [''tmpl/a.gohtml'', ''tmpl/c.gohtml'', ''tmpl/b.gohtml'', ''tmpl/c.gohtml''] ''src/index.gohtml'' =
     [''tmpl/a.gohtml'', ''tmpl/c.gohtml'', ''tmpl/b.gohtml'', ''tmpl/c.gohtml'', ''src/index.gohtml'']"
  using resolution_deterministic [OF diamond_result diamond_result_deeper] diamond_result
    diamond_result_deeper
  by (simp add: bundle_of_def)

text \<open>
  Claim C6. The extractor is a total function of the content: it has no error
  result. The keys of the set it returns are exactly the names captured by the
  matches of the pattern, so no match gives the empty set; and the set has one entry
  for each distinct name, however often the name is matched (\<open>len(curTmplSet)\<close> is
  the number of distinct names).
\<close>

theorem extract_names_distinct:
  "dom (extract_names content) = set (matched_names content) \<and>
   card (dom (extract_names content)) = length (remdups (matched_names content)) \<and>
   (matched_names content = [] \<longleftrightarrow> extract_names content = Map.empty)"
proof -
  have d: "dom (extract_names content) = set (matched_names content)"
    by (simp add: extract_names_def matched_names_def dom_collect_names)
  moreover have "card (set (matched_names content)) = length (remdups (matched_names content))"
    by (simp add: length_remdups_card_conv)
  moreover have "matched_names content = [] \<longleftrightarrow> extract_names content = Map.empty"
    using d by (metis dom_eq_empty_conv set_empty)
  ultimately show ?thesis by simp
qed

theorem extract_names_distinct_witness:
  "matched_names (''{{template \"a\"}}'' @ [CHR 0x0A] @ ''{{ template \"a\" . }}'') = [''a'', ''a''] \<and>
   dom (extract_names (''{{template \"a\"}}'' @ [CHR 0x0A] @ ''{{ template \"a\" . }}'')) = {''a''} \<and>
   card (dom (extract_names (''{{template \"a\"}}'' @ [CHR 0x0A] @ ''{{ template \"a\" . }}''))) = 1 \<and>
   extract_names ''<p>no directive here</p>'' = Map.empty"
proof -
  have m: "matched_names (''{{template \"a\"}}'' @ [CHR 0x0A] @ ''{{ template \"a\" . }}'') = [''a'', ''a'']"
    by (simp add: matched_names_def reTmpl_def lits_def)
  have n: "matched_names ''<p>no directive here</p>'' = []"
    by (simp add: matched_names_def reTmpl_def lits_def)
  show ?thesis
    using extract_names_distinct [of "''{{template \"a\"}}'' @ [CHR 0x0A] @ ''{{ template \"a\" . }}''"]
      extract_names_distinct [of "''<p>no directive here</p>''"] m n
    by simp
qed

section \<open>Properties of the path mapping\<close>

lemma split_slash_nonempty: "split_slash s \<noteq> []"
  by (induction s) (auto split: list.splits)

lemma split_slash_no_slash: "CHR ''/'' \<notin> set e \<Longrightarrow> split_slash e = [e]"
  by (induction e) (auto split: list.splits)

lemma split_slash_append:
  "split_slash (y @ CHR ''/'' # s) = split_slash y @ split_slash s"
proof (induction y)
  case Nil
  then show ?case by simp
next
  case (Cons c y)
  then show ?case
    using split_slash_nonempty [of y] by (cases "split_slash y") auto
qed

lemma Clean_elems_last:
  assumes "e \<noteq> []" "e \<noteq> ''.''" "e \<noteq> ''..''"
  shows "\<exists>st'. Clean_elems rooted st (xs @ [e]) = rev st' @ [e]"
proof (induction xs arbitrary: st)
  case Nil
  with assms show ?case by auto
next
  case (Cons x xs)
  show ?case using Cons.IH by auto
qed

lemma join_slash_last: "\<exists>d. join_slash (l @ [e]) = d @ e"
proof (induction l)
  case Nil
  then show ?case by simp
next
  case (Cons x l)
  then obtain d where d: "join_slash (l @ [e]) = d @ e" by blast
  show ?case
  proof (cases "l @ [e]")
    case Nil
    then show ?thesis by simp
  next
    case (Cons z zs)
    then have "join_slash (x # l @ [e]) = x @ CHR ''/'' # join_slash (l @ [e])" by simp
    with d have "join_slash ((x # l) @ [e]) = (x @ CHR ''/'' # d) @ e" by simp
    then show ?thesis by blast
  qed
qed

lemma Clean_keeps_last:
  assumes "e \<noteq> []" "CHR ''/'' \<notin> set e" "e \<noteq> ''.''" "e \<noteq> ''..''"
  shows "\<exists>d. Clean (y @ CHR ''/'' # e) = d @ e"
proof -
  let ?p = "y @ CHR ''/'' # e"
  have sp: "split_slash ?p = split_slash y @ [e]"
    by (simp add: split_slash_append split_slash_no_slash assms(2))
  obtain st' where "Clean_elems (hd ?p = CHR ''/'') [] (split_slash ?p) = rev st' @ [e]"
    unfolding sp using Clean_elems_last [OF assms(1,3,4)] by blast
  moreover obtain d where "join_slash (rev st' @ [e]) = d @ e"
    using join_slash_last by blast
  ultimately have out: "join_slash (Clean_elems (hd ?p = CHR ''/'') [] (split_slash ?p)) = d @ e"
    by simp
  show ?thesis
  proof (cases "hd ?p = CHR ''/''")
    case True
    with out have "Clean ?p = (CHR ''/'' # d) @ e"
      by (simp add: Clean_def Let_def)
    then show ?thesis by blast
  next
    case False
    with out assms(1) have "Clean ?p = d @ e"
      by (simp add: Clean_def Let_def)
    then show ?thesis by blast
  qed
qed

lemma Clean_nonempty: "Clean path \<noteq> []"
  by (simp add: Clean_def Let_def)

lemma Ext_scan_shape:
  "Ext_scan r acc = x \<Longrightarrow> x \<noteq> [] \<Longrightarrow>
   \<exists>r1 r2. r = r1 @ CHR ''.'' # r2 \<and> CHR ''/'' \<notin> set r1 \<and> x = CHR ''.'' # rev r1 @ acc"
proof (induction r arbitrary: acc)
  case Nil
  then show ?case by simp
next
  case (Cons c r)
  show ?case
  proof (cases "c = CHR ''.''")
    case True
    with Cons.prems have "x = CHR ''.'' # acc" by simp
    with True show ?thesis by (intro exI [of _ "[]"] exI [of _ r]) simp
  next
    case False
    with Cons.prems have c: "c \<noteq> CHR ''/''" and "Ext_scan r (c # acc) = x"
      by (auto split: if_splits)
    from Cons.IH [OF this(2) Cons.prems(2)]
    obtain r1 r2 where "r = r1 @ CHR ''.'' # r2" "CHR ''/'' \<notin> set r1" "x = CHR ''.'' # rev r1 @ c # acc"
      by blast
    with c show ?thesis
      by (intro exI [of _ "c # r1"] exI [of _ r2]) simp
  qed
qed

lemma Ext_last_element:
  assumes "Ext u = x" "x \<noteq> []"
  shows "\<exists>front e0. u = front @ e0 @ x \<and> (front = [] \<or> last front = CHR ''/'') \<and>
     CHR ''/'' \<notin> set (e0 @ x)"
proof -
  from Ext_scan_shape [OF assms(1) [unfolded Ext_def] assms(2)]
  obtain r1 r2 where r: "rev u = r1 @ CHR ''.'' # r2" and r1: "CHR ''/'' \<notin> set r1"
    and x: "x = CHR ''.'' # rev r1" by auto
  let ?e0 = "rev (takeWhile (\<lambda>c. c \<noteq> CHR ''/'') r2)"
  let ?front = "rev (dropWhile (\<lambda>c. c \<noteq> CHR ''/'') r2)"
  have "rev (rev u) = rev (r1 @ CHR ''.'' # r2)" using r by simp
  then have "u = rev (r1 @ CHR ''.'' # r2)" by simp
  also have "\<dots> = rev r2 @ x" by (simp add: x)
  also have "rev r2 = ?front @ ?e0"
  proof -
    have "rev r2 = rev (takeWhile (\<lambda>c. c \<noteq> CHR ''/'') r2 @ dropWhile (\<lambda>c. c \<noteq> CHR ''/'') r2)"
      by simp
    then show ?thesis by (simp only: rev_append)
  qed
  finally have u: "u = ?front @ ?e0 @ x" by simp
  have f: "?front = [] \<or> last ?front = CHR ''/''"
    using hd_dropWhile [of "\<lambda>c. c \<noteq> CHR ''/''" r2]
    by (cases "dropWhile (\<lambda>c. c \<noteq> CHR ''/'') r2 = []") (simp_all add: last_rev)
  have "CHR ''/'' \<notin> set ?e0" by (auto dest: set_takeWhileD)
  with r1 have "CHR ''/'' \<notin> set (?e0 @ x)" by (simp add: x)
  with u f show ?thesis by blast
qed

lemma Join_src:
  assumes "Ext u = x" "x \<noteq> []" "x \<noteq> ''.''" "x \<noteq> ''..''"
  shows "\<exists>d. Join [''./src'', u] = d @ x"
proof -
  from Ext_last_element [OF assms(1,2)]
  obtain front e0 where u: "u = front @ e0 @ x"
    and f: "front = [] \<or> last front = CHR ''/''" and ns: "CHR ''/'' \<notin> set (e0 @ x)"
    by blast
  from Ext_scan_shape [OF assms(1) [unfolded Ext_def] assms(2)]
  have hd: "hd x = CHR ''.''" by auto
  let ?e = "e0 @ x"
  have e: "?e \<noteq> []" "?e \<noteq> ''.''" "?e \<noteq> ''..''"
    using assms(2,3,4) hd ns by (auto simp: append_eq_Cons_conv Cons_eq_append_conv)
  have "\<exists>y. ''./src/'' @ front = y @ ''/''"
  proof (cases "front = []")
    case True
    then show ?thesis by (intro exI [of _ "''./src''"]) simp
  next
    case False
    with f have "butlast front @ ''/'' = front"
      using append_butlast_last_id [of front] by simp
    then have "''./src/'' @ front = (''./src/'' @ butlast front) @ ''/''" by simp
    then show ?thesis by blast
  qed
  then obtain y where y: "''./src/'' @ front = y @ ''/''" by blast
  have "Join_buf [] [''./src'', u] = ''./src/'' @ u" by simp
  also have "\<dots> = (''./src/'' @ front) @ ?e" by (simp add: u)
  also have "\<dots> = y @ CHR ''/'' # ?e" using y by simp
  finally have "Join [''./src'', u] = Clean (y @ CHR ''/'' # ?e)"
    by (simp add: Join_def)
  moreover from Clean_keeps_last [OF e(1) ns e(2,3), of y]
  obtain d where "Clean (y @ CHR ''/'' # ?e) = d @ ?e" by blast
  ultimately have "Join [''./src'', u] = (d @ e0) @ x" by simp
  then show ?thesis by blast
qed

lemma Join_index:
  "\<exists>d. Join [Join [''./src'', u], ''index.html''] = d @ ''index.html''"
proof -
  let ?c = "Join [''./src'', u]"
  have c: "?c \<noteq> []" by (simp add: Join_def Clean_nonempty)
  then have "Join [?c, ''index.html''] = Clean (?c @ CHR ''/'' # ''index.html'')"
    by (simp add: Join_def)
  moreover have "\<exists>d. Clean (?c @ CHR ''/'' # ''index.html'') = d @ ''index.html''"
    by (rule Clean_keeps_last) simp_all
  ultimately show ?thesis by simp
qed

lemma case_html_rewrites: "case_html (d @ ''html'') = render (d @ ''gohtml'')"
  by (simp add: case_html_def case_gohtml_def)


text \<open>
  Claim C7. The handler maps a request path by the extension \<open>filepath.Ext\<close> finds in
  it, the cases being tried in this order. With no extension, \<open>index.html\<close> is
  joined to the source path and the \<open>.html\<close> case is entered. In the \<open>.html\<close> case the
  source path ends in \<open>.html\<close>, so that it has the four characters the slice
  removes, and \<open>gohtml\<close> takes their place. With the extension \<open>.gohtml\<close> the source
  path is rendered as it is. Any other extension leaves the template path.
\<close>

theorem map_path_rules:
  "(Ext urlPath = [] \<longrightarrow>
      map_path urlPath = case_html (Join [Join [''./src'', urlPath], ''index.html'']) \<and>
      (\<exists>d. Join [Join [''./src'', urlPath], ''index.html''] = d @ ''index.html'' \<and>
           map_path urlPath = render (d @ ''index.gohtml''))) \<and>
   (Ext urlPath = ''.html'' \<longrightarrow>
      (\<exists>d. Join [''./src'', urlPath] = d @ ''.html'' \<and>
           map_path urlPath =
             render (take (length (Join [''./src'', urlPath]) - 4) (Join [''./src'', urlPath]) @ ''gohtml'') \<and>
           map_path urlPath = render (d @ ''.gohtml''))) \<and>
   (Ext urlPath = ''.gohtml'' \<longrightarrow> map_path urlPath = render (Join [''./src'', urlPath])) \<and>
   (Ext urlPath \<notin> {[], ''.html'', ''.gohtml''} \<longrightarrow> map_path urlPath = static_file)"
proof (intro conjI impI)
  assume e: "Ext urlPath = []"
  then show "map_path urlPath = case_html (Join [Join [''./src'', urlPath], ''index.html''])"
    by (simp add: map_path_def case_no_ext_def)
  from Join_index [of urlPath]
  obtain d where d: "Join [Join [''./src'', urlPath], ''index.html''] = d @ ''index.html''"
    by blast
  have "case_html ((d @ ''index.'') @ ''html'') = render ((d @ ''index.'') @ ''gohtml'')"
    by (rule case_html_rewrites)
  with e d have "map_path urlPath = render (d @ ''index.gohtml'')"
    by (simp add: map_path_def case_no_ext_def)
  with d show "\<exists>d. Join [Join [''./src'', urlPath], ''index.html''] = d @ ''index.html'' \<and>
      map_path urlPath = render (d @ ''index.gohtml'')"
    by blast
next
  assume e: "Ext urlPath = ''.html''"
  from Join_src [OF e] obtain d where d: "Join [''./src'', urlPath] = d @ ''.html''"
    by auto
  have "case_html ((d @ ''.'') @ ''html'') = render ((d @ ''.'') @ ''gohtml'')"
    by (rule case_html_rewrites)
  with e d have m: "map_path urlPath = render (d @ ''.gohtml'')"
    by (simp add: map_path_def)
  have "take (length (d @ ''.html'') - 4) (d @ ''.html'') @ ''gohtml'' = d @ ''.gohtml''"
    by simp
  with d m show "\<exists>d. Join [''./src'', urlPath] = d @ ''.html'' \<and>
      map_path urlPath =
        render (take (length (Join [''./src'', urlPath]) - 4) (Join [''./src'', urlPath]) @ ''gohtml'') \<and>
      map_path urlPath = render (d @ ''.gohtml'')"
    by (intro exI [of _ d]) simp
next
  assume "Ext urlPath = ''.gohtml''"
  then show "map_path urlPath = render (Join [''./src'', urlPath])"
    by (simp add: map_path_def case_gohtml_def)
next
  assume "Ext urlPath \<notin> {[], ''.html'', ''.gohtml''}"
  then show "map_path urlPath = static_file"
    by (simp add: map_path_def)
qed

lemma map_path_examples:
  "map_path ''/'' = render ''src/index.gohtml''"
  "map_path ''/blog'' = render ''src/blog/index.gohtml''"
  "map_path ''/about.html'' = render ''src/about.gohtml''"
  "map_path ''/post/first.gohtml'' = render ''src/post/first.gohtml''"
  "map_path ''/logo.png'' = static_file"
  by code_simp+

theorem map_path_rules_witness:
  "Ext ''/'' = [] \<and> map_path ''/'' = render ''src/index.gohtml'' \<and>
   Ext ''/about.html'' = ''.html'' \<and> map_path ''/about.html'' = render ''src/about.gohtml'' \<and>
   Ext ''/post/first.gohtml'' = ''.gohtml'' \<and>
   map_path ''/post/first.gohtml'' = render ''src/post/first.gohtml'' \<and>
   Ext ''/logo.png'' = ''.png'' \<and> map_path ''/logo.png'' = static_file"
  using map_path_rules [of "''/''"] map_path_rules [of "''/about.html''"]
    map_path_rules [of "''/post/first.gohtml''"] map_path_rules [of "''/logo.png''"]
  by (simp add: map_path_examples Ext_def)

section \<open>Properties of the request handler\<close>

lemma parse_each_unreadable:
  "\<exists>q \<in> set filenames. ReadFile fs e q = None \<Longrightarrow> \<exists>err. parse_each E fs e t filenames = Inl err"
proof (induction filenames arbitrary: t)
  case Nil
  then show ?case by simp
next
  case (Cons f filenames)
  show ?case
  proof (cases "ReadFile fs e f")
    case None
    then show ?thesis by simp
  next
    case (Some b)
    with Cons.prems have rest: "\<exists>q \<in> set filenames. ReadFile fs e q = None" by auto
    show ?thesis
    proof (cases "template_Parse E t (Base f) b")
      case (Inl err)
      with Some show ?thesis by simp
    next
      case (Inr t')
      with Some Cons.IH [OF rest, of t'] show ?thesis by simp
    qed
  qed
qed

lemma ParseFiles_unreadable:
  "\<exists>q \<in> set filenames. ReadFile fs e q = None \<Longrightarrow> \<exists>err. ParseFiles E fs e t filenames = Inl err"
proof -
  assume a: "\<exists>q \<in> set filenames. ReadFile fs e q = None"
  then have "filenames \<noteq> []" by auto
  with parse_each_unreadable [OF a] show ?thesis by (simp add: ParseFiles_def)
qed

lemma render_page_resolution_failed:
  "getAllTmplName depth fs curSrc all e = Some (Inl err) \<Longrightarrow>
   render_page E fs all e depth curSrc =
     Some (responds \<lparr>status = 400, content_type = Some ''text/html; charset=utf-8'', body = []\<rparr>)"
  by (simp add: render_page_def)

lemma render_page_compile_failed:
  "getAllTmplName depth fs curSrc all e = Some (Inr filterTmpl) \<Longrightarrow>
   ParseFiles E fs e (template_New E (Base curSrc)) (bundle_of filterTmpl curSrc) = Inl err \<Longrightarrow>
   render_page E fs all e depth curSrc =
     Some (responds \<lparr>status = 400, content_type = Some ''text/html; charset=utf-8'',
       body = [error_text err]\<rparr>)"
  by (simp add: render_page_def)

lemma render_page_failure:
  assumes ret: "getAllTmplName depth fs curSrc all e = Some r"
    and fail: "ReadFile fs e curSrc = None \<or>
      (\<exists>q. q \<in> transitively_referenced fs e all curSrc \<and> ReadFile fs e q = None) \<or>
      (\<exists>depth' filterTmpl err.
         getAllTmplName depth' fs curSrc all e = Some (Inr filterTmpl) \<and>
         ParseFiles E fs e (template_New E (Base curSrc)) (bundle_of filterTmpl curSrc) = Inl err)"
  shows "\<exists>resp. render_page E fs all e depth curSrc = Some (responds resp) \<and>
     status resp = 400 \<and> list_all is_error_text (body resp)"
proof (cases r)
  case (Inl err)
  with ret show ?thesis by (simp add: render_page_resolution_failed)
next
  case (Inr l)
  with ret have l: "getAllTmplName depth fs curSrc all e = Some (Inr l)" by simp
  then have readable: "ReadFile fs e curSrc \<noteq> None"
    by (cases depth) (auto simp: getAllTmplName_Suc split: option.splits)
  have "\<exists>err. ParseFiles E fs e (template_New E (Base curSrc)) (bundle_of l curSrc) = Inl err"
    using fail
  proof (elim disjE exE conjE)
    assume "ReadFile fs e curSrc = None"
    with readable show ?thesis by simp
  next
    fix q assume "q \<in> transitively_referenced fs e all curSrc" "ReadFile fs e q = None"
    moreover from set_result [OF l]
    have "set l = transitively_referenced fs e all curSrc"
      by (simp add: fList_of_def transitively_referenced_def)
    ultimately have "\<exists>q \<in> set (bundle_of l curSrc). ReadFile fs e q = None"
      by (auto simp: bundle_of_def)
    then show ?thesis by (rule ParseFiles_unreadable)
  next
    fix depth' filterTmpl err
    assume d: "getAllTmplName depth' fs curSrc all e = Some (Inr filterTmpl)"
      and p: "ParseFiles E fs e (template_New E (Base curSrc)) (bundle_of filterTmpl curSrc) = Inl err"
    from getAllTmplName_deterministic [OF l d] have "l = filterTmpl" by simp
    with p show ?thesis by blast
  qed
  then obtain err where "ParseFiles E fs e (template_New E (Base curSrc)) (bundle_of l curSrc) = Inl err"
    by blast
  with l show ?thesis by (simp add: render_page_compile_failed)
qed

text \<open>
  Claim C4, as the code has it. Take a request on the template path whose page
  reaches no reference cycle, so that the resolver returns. If the page cannot be
  read, or a template file it transitively references cannot be read, or the
  compilation of the bundle fails, then the handler answers with status 400, and
  what it writes to the body, if anything, is the error text, never output of the
  template. (The resolver itself drops the error of a referenced file it could not
  read; the file is in the bundle, and the compilation fails on it.)
\<close>

theorem failure_gives_400:
  assumes "map_path urlPath = render curSrc"
    and "acyclic_from fs isEmbed tmplFileList curSrc"
    and "ReadFile fs isEmbed curSrc = None \<or>
      (\<exists>q. q \<in> transitively_referenced fs isEmbed tmplFileList curSrc \<and> ReadFile fs isEmbed q = None) \<or>
      (\<exists>depth' filterTmpl err.
         getAllTmplName depth' fs curSrc tmplFileList isEmbed = Some (Inr filterTmpl) \<and>
         ParseFiles E fs isEmbed (template_New E (Base curSrc)) (bundle_of filterTmpl curSrc) = Inl err)"
  shows "\<exists>depth resp.
      handle_request E fs tmplFileList isEmbed depth urlPath = Some (responds resp) \<and>
      status resp = 400 \<and> list_all is_error_text (body resp) \<and>
      (\<forall>depth' h. handle_request E fs tmplFileList isEmbed depth' urlPath = Some h \<longrightarrow>
         h = responds resp)"
proof -
  from assms(2) obtain depth r where ret: "getAllTmplName depth fs curSrc tmplFileList isEmbed = Some r"
    by (auto simp: acyclic_iff_returns)
  from render_page_failure [OF ret assms(3)]
  obtain resp where resp: "render_page E fs tmplFileList isEmbed depth curSrc = Some (responds resp)"
    "status resp = 400" "list_all is_error_text (body resp)"
    by blast
  have same: "h = responds resp"
    if "handle_request E fs tmplFileList isEmbed depth' urlPath = Some h" for depth' h
  proof -
    from that assms(1) have h: "render_page E fs tmplFileList isEmbed depth' curSrc = Some h"
      by (simp add: handle_request_def)
    then obtain r' where r': "getAllTmplName depth' fs curSrc tmplFileList isEmbed = Some r'"
      by (auto simp: render_page_def split: option.splits)
    from getAllTmplName_deterministic [OF ret r'] have "r' = r" by simp
    with r' ret have "render_page E fs tmplFileList isEmbed depth' curSrc =
        render_page E fs tmplFileList isEmbed depth curSrc"
      by (simp add: render_page_def)
    with h resp(1) show ?thesis by simp
  qed
  have "handle_request E fs tmplFileList isEmbed depth urlPath = Some (responds resp)"
    using resp(1) assms(1) by (simp add: handle_request_def)
  with resp(2,3) same show ?thesis by blast
qed

lemma stale_result:
  "getAllTmplName 2 stale_site ''src/about.gohtml'' [''tmpl/header.gohtml''] False =
     Some (Inr [''tmpl/header.gohtml''])"
  by code_simp

lemma stale_referenced:
  "''tmpl/header.gohtml'' \<in> transitively_referenced stale_site False [''tmpl/header.gohtml''] ''src/about.gohtml''"
  using set_result [OF stale_result]
  by (auto simp: fList_of_def transitively_referenced_def)

lemma stale_response:
  "handle_request sample_engine stale_site [''tmpl/header.gohtml''] False 2 ''/about.html'' =
     Some (responds \<lparr>status = 400, content_type = Some ''text/html; charset=utf-8'',
       body = [error_text (read_failed ''tmpl/header.gohtml'')]\<rparr>)"
  by code_simp

theorem failure_gives_400_witness:
  "map_path ''/about.html'' = render ''src/about.gohtml'' \<and>
   acyclic_from stale_site False [''tmpl/header.gohtml''] ''src/about.gohtml'' \<and>
   ''tmpl/header.gohtml'' \<in>
     transitively_referenced stale_site False [''tmpl/header.gohtml''] ''src/about.gohtml'' \<and>
   ReadFile stale_site False ''tmpl/header.gohtml'' = None \<and>
   handle_request sample_engine stale_site [''tmpl/header.gohtml''] False 2 ''/about.html'' =
     Some (responds \<lparr>status = 400, content_type = Some ''text/html; charset=utf-8'',
       body = [error_text (read_failed ''tmpl/header.gohtml'')]\<rparr>) \<and>
   (\<exists>depth resp.
      handle_request sample_engine stale_site [''tmpl/header.gohtml''] False depth ''/about.html'' =
        Some (responds resp) \<and>
      status resp = 400 \<and> list_all is_error_text (body resp))"
proof -
  have m: "map_path ''/about.html'' = render ''src/about.gohtml''"
    by (rule map_path_examples)
  have a: "acyclic_from stale_site False [''tmpl/header.gohtml''] ''src/about.gohtml''"
    using stale_result by (rule returns_imp_acyclic)
  have u: "ReadFile stale_site False ''tmpl/header.gohtml'' = None"
    by (simp add: ReadFile_def stale_site_def)
  from stale_referenced u
  have f: "ReadFile stale_site False ''src/about.gohtml'' = None \<or>
      (\<exists>q. q \<in> transitively_referenced stale_site False [''tmpl/header.gohtml''] ''src/about.gohtml'' \<and>
           ReadFile stale_site False q = None) \<or>
      (\<exists>depth' filterTmpl err.
         getAllTmplName depth' stale_site ''src/about.gohtml'' [''tmpl/header.gohtml''] False =
           Some (Inr filterTmpl) \<and>
         ParseFiles sample_engine stale_site False (template_New sample_engine (Base ''src/about.gohtml''))
           (bundle_of filterTmpl ''src/about.gohtml'') = Inl err)"
    by blast
  from failure_gives_400 [OF m a f] m a u stale_referenced stale_response
  show ?thesis by blast
qed

lemma looping_edges:
  "direct looping_site False looping_candidates ''src/index.gohtml'' =
     [''tmpl/gone.gohtml'', ''tmpl/loop.gohtml'']"
  "direct looping_site False looping_candidates ''tmpl/loop.gohtml'' = [''tmpl/loop.gohtml'']"
  by code_simp+

text \<open>
  The claim fails on \<open>looping_site\<close>: the request for \<open>/\<close> is on the template path,
  the page references \<open>tmpl/gone.gohtml\<close>, which cannot be read, and the handler
  gives no response at all, since the resolver does not return from
  \<open>tmpl/loop.gohtml\<close>.
\<close>

theorem looping_site_failure_not_surfaced:
  "map_path ''/'' = render ''src/index.gohtml'' \<and>
   ''tmpl/gone.gohtml'' \<in>
     transitively_referenced looping_site False looping_candidates ''src/index.gohtml'' \<and>
   ReadFile looping_site False ''tmpl/gone.gohtml'' = None \<and>
   (\<forall>depth. handle_request sample_engine looping_site looping_candidates False depth ''/'' = None)"
proof -
  let ?R = "refers_to looping_site False looping_candidates"
  have m: "map_path ''/'' = render ''src/index.gohtml''"
    by (rule map_path_examples)
  have g: "(''src/index.gohtml'', ''tmpl/gone.gohtml'') \<in> ?R"
    and l: "(''src/index.gohtml'', ''tmpl/loop.gohtml'') \<in> ?R"
    and c: "(''tmpl/loop.gohtml'', ''tmpl/loop.gohtml'') \<in> ?R"
    by (simp_all add: refers_to_iff looping_edges)
  from l c have "getAllTmplName depth looping_site ''src/index.gohtml'' looping_candidates False = None"
    for depth
    by (intro reaches_cycle_never_returns [of _ "''tmpl/loop.gohtml''"]) auto
  then have "handle_request sample_engine looping_site looping_candidates False depth ''/'' = None"
    for depth
    by (simp add: handle_request_def m render_page_def)
  moreover have "ReadFile looping_site False ''tmpl/gone.gohtml'' = None"
    by (simp add: ReadFile_def looping_site_def)
  ultimately show ?thesis
    using m g by (auto simp: transitively_referenced_def)
qed

section \<open>Further properties\<close>

text \<open>
  The resolution of a page returns exactly when the page reaches no reference cycle.
\<close>

theorem resolution_returns_iff_acyclic:
  "(\<exists>depth r. getAllTmplName depth fs filePath allTmpl isEmbed = Some r) \<longleftrightarrow>
   acyclic_from fs isEmbed allTmpl filePath"
  by (simp add: acyclic_iff_returns)

text \<open>
  The pattern's \<open>.*\<close> is greedy and runs to the last \<open>}}\<close> of the line: of two
  directives on one line only the first is found, and only its name is extracted.
\<close>

theorem two_directives_on_one_line:
  "matched_names ''{{template \"a.gohtml\"}} {{template \"b.gohtml\"}}'' = [''a.gohtml'']"
  by (simp add: matched_names_def reTmpl_def lits_def)

text \<open>
  When the resolution and the compilation succeed, the handler answers with status
  200 and the content type \<open>text/html; charset=utf-8\<close>, and the body is the output of
  \<open>Execute\<close> on the compiled bundle.
\<close>

theorem success_gives_200:
  "map_path urlPath = render curSrc \<Longrightarrow>
   getAllTmplName depth fs curSrc tmplFileList isEmbed = Some (Inr filterTmpl) \<Longrightarrow>
   ParseFiles E fs isEmbed (template_New E (Base curSrc)) (bundle_of filterTmpl curSrc) = Inr t \<Longrightarrow>
   handle_request E fs tmplFileList isEmbed depth urlPath =
     Some (responds \<lparr>status = 200, content_type = Some ''text/html; charset=utf-8'',
       body = [rendered_output (template_Execute E t)]\<rparr>)"
  by (simp add: handle_request_def render_page_def)

lemma about_parse:
  "ParseFiles sample_engine about_site False (template_New sample_engine (Base ''src/about.gohtml''))
     (bundle_of [''tmpl/header.gohtml''] ''src/about.gohtml'') =
     Inr [''<h1>{{.Site.Title}}</h1>'', ''{{template \"header.gohtml\" .}}'']"
  by code_simp

theorem success_gives_200_witness:
  "map_path ''/about.html'' = render ''src/about.gohtml'' \<and>
   getAllTmplName 2 about_site ''src/about.gohtml'' [''tmpl/header.gohtml''] False =
     Some (Inr [''tmpl/header.gohtml'']) \<and>
   ParseFiles sample_engine about_site False (template_New sample_engine (Base ''src/about.gohtml''))
     (bundle_of [''tmpl/header.gohtml''] ''src/about.gohtml'') =
     Inr [''<h1>{{.Site.Title}}</h1>'', ''{{template \"header.gohtml\" .}}''] \<and>
   handle_request sample_engine about_site [''tmpl/header.gohtml''] False 2 ''/about.html'' =
     Some (responds \<lparr>status = 200, content_type = Some ''text/html; charset=utf-8'',
       body = [rendered_output (template_Execute sample_engine
         [''<h1>{{.Site.Title}}</h1>'', ''{{template \"header.gohtml\" .}}''])]\<rparr>)"
  using success_gives_200 [OF map_path_examples(3) about_result about_parse]
    map_path_examples(3) about_result about_parse
  by simp

text \<open>
  In the \<open>default\<close> case of the \<open>switch\<close> the handler writes nothing: the file server
  it builds is dropped without being called.
\<close>

theorem other_extension_writes_nothing:
  "map_path urlPath = static_file \<Longrightarrow>
   handle_request E fs tmplFileList isEmbed depth urlPath =
     Some (responds \<lparr>status = 200, content_type = None, body = []\<rparr>)"
  by (simp add: handle_request_def)

theorem other_extension_writes_nothing_witness:
  "map_path ''/logo.png'' = static_file \<and>
   handle_request sample_engine about_site [''tmpl/header.gohtml''] False 0 ''/logo.png'' =
     Some (responds \<lparr>status = 200, content_type = None, body = []\<rparr>)"
  using other_extension_writes_nothing [OF map_path_examples(5), of sample_engine about_site
      "[''tmpl/header.gohtml'']" False 0]
    map_path_examples(5)
  by simp

text \<open>
  A content without an opening brace holds no inclusion directive: the extractor
  returns the empty set for it.
\<close>

theorem no_brace_no_names:
  "CHR ''{'' \<notin> set content \<Longrightarrow> extract_names content = Map.empty"
proof -
  assume "CHR ''{'' \<notin> set content"
  then have "FindAllStringSubmatch content = []"
    by (induction content) (auto simp: reTmpl_def lits_def)
  then show ?thesis by (simp add: extract_names_def)
qed

theorem no_brace_no_names_witness:
  "CHR ''{'' \<notin> set ''<p>plain text</p>'' \<and> extract_names ''<p>plain text</p>'' = Map.empty"
  using no_brace_no_names [of "''<p>plain text</p>''"] by simp

end
